theory Spec2Isabelle
  imports Main "HOL-Library.Word"
begin

section \<open>The highlighting context (HighlightingContext, HighlightedListViewItem)\<close>

text \<open>
  The second half of \<^verbatim>\<open>mainwnd.c\<close> is the C\# class pair \<^verbatim>\<open>HighlightingContext\<close> /
  \<^verbatim>\<open>HighlightedListViewItem\<close>. Objects are identified by a number; the closures the
  source passes to \<^verbatim>\<open>Enqueue\<close> and \<^verbatim>\<open>EnqueuePost\<close> are the constructors of
  \<open>action\<close>, one per lambda of the source, each capturing the item it was created for.
  \<^verbatim>\<open>ForeColor\<close> is always \<^verbatim>\<open>PhUtils.GetForeColor(BackColor)\<close>, a function that is not
  part of the source file, and is left out.
\<close>

type_synonym item_id = nat

datatype ListViewItemState = Normal | New | Removed

datatype Color = SystemWindow | FromArgb nat

text \<open>The static dictionary filled by the static constructor: it has no entry for \<open>Normal\<close>.\<close>

definition Colors :: "ListViewItemState \<Rightarrow> Color option" where
  "Colors st =
     (case st of
        New \<Rightarrow> Some (FromArgb 0xe0f0e0)
      | Removed \<Rightarrow> Some (FromArgb 0xf0e0e0)
      | Normal \<Rightarrow> None)"

record item =
  Text :: string
  SubItems :: "nat \<Rightarrow> string"
  Param :: nat
  BackColor :: Color
  normalColor :: Color
  state :: ListViewItemState

text \<open>
  The delegates of the source:
  \<^item> \<open>DecayToNormal\<close>: the lambda the constructor (and the lambda of
    \<^verbatim>\<open>SetTemporaryState\<close>) passes to \<^verbatim>\<open>EnqueuePost\<close>;
  \<^item> \<open>BaseRemove\<close>: \<^verbatim>\<open>this.BaseRemove\<close>;
  \<^item> \<open>RemoveHighlight\<close>: the lambda \<^verbatim>\<open>Remove\<close> passes to \<^verbatim>\<open>Enqueue\<close>;
  \<^item> \<open>TemporaryState\<close>: the lambda \<^verbatim>\<open>SetTemporaryState\<close> passes to \<^verbatim>\<open>Enqueue\<close>;
  \<^item> \<open>Method es ps\<close>: any other \<^verbatim>\<open>MethodInvoker\<close> handed to the public
    \<^verbatim>\<open>Enqueue\<close>/\<^verbatim>\<open>EnqueuePost\<close>, which when invoked calls \<^verbatim>\<open>Enqueue\<close> on each of
    \<open>es\<close> and \<^verbatim>\<open>EnqueuePost\<close> on each of \<open>ps\<close>.
\<close>

datatype action =
    DecayToNormal item_id
  | BaseRemove item_id
  | RemoveHighlight item_id
  | TemporaryState item_id ListViewItemState
  | Method "action list" "action list"

text \<open>The monitors of the three queues, the two delegates given to \<^verbatim>\<open>BeginInvoke\<close>.\<close>

datatype lock = QueueLock | PostQueueLock | PostQueuePendingLock

datatype callback = ImmediateBatch | DelayedBatch

datatype exn = KeyNotFoundException

text \<open>
  \<open>invokeList\<close> holds the delegates given to \<^verbatim>\<open>BeginInvoke\<close> that the UI thread has not
  run yet; \<open>timers\<close> the armed one-shot timers (each with its due time in ms), oldest
  first; \<open>held\<close> the monitors the running thread owns; \<open>updating\<close> the nesting of
  \<^verbatim>\<open>BeginUpdate\<close>; \<open>ListItems\<close> the rows of the list in order; \<open>objs\<close> the item
  objects; \<open>invoked\<close> every \<^verbatim>\<open>Invoke()\<close> of a dequeued delegate, with the monitors
  owned at the call.
\<close>

record ctx =
  IsHandleCreated :: bool
  StateHighlighting :: bool
  HighlightingDuration :: int
  queue :: "action list"
  postQueue :: "action list"
  postQueuePending :: "action list"
  invokeList :: "callback list"
  timers :: "int list"
  held :: "lock list"
  updating :: nat
  ListItems :: "item_id list"
  objs :: "item_id \<Rightarrow> item option"
  invoked :: "(action \<times> lock list) list"

definition MonitorEnter :: "lock \<Rightarrow> ctx \<Rightarrow> ctx" where
  "MonitorEnter l c = c\<lparr>held := l # held c\<rparr>"

definition MonitorExit :: "lock \<Rightarrow> ctx \<Rightarrow> ctx" where
  "MonitorExit l c = c\<lparr>held := remove1 l (held c)\<rparr>"

definition BeginUpdate :: "ctx \<Rightarrow> ctx" where
  "BeginUpdate c = c\<lparr>updating := Suc (updating c)\<rparr>"

definition EndUpdate :: "ctx \<Rightarrow> ctx" where
  "EndUpdate c = c\<lparr>updating := updating c - 1\<rparr>"

text \<open>\<^verbatim>\<open>lock (_queue) _queue.Enqueue(method);\<close>\<close>

definition Enqueue :: "action \<Rightarrow> ctx \<Rightarrow> ctx" where
  "Enqueue m c =
     MonitorExit QueueLock ((MonitorEnter QueueLock c)\<lparr>queue := queue c @ [m]\<rparr>)"

text \<open>\<^verbatim>\<open>lock (_postQueuePending) _postQueuePending.Enqueue(method);\<close>\<close>

definition EnqueuePost :: "action \<Rightarrow> ctx \<Rightarrow> ctx" where
  "EnqueuePost m c =
     MonitorExit PostQueuePendingLock
       ((MonitorEnter PostQueuePendingLock c)\<lparr>postQueuePending := postQueuePending c @ [m]\<rparr>)"

definition upd_item :: "item_id \<Rightarrow> (item \<Rightarrow> item) \<Rightarrow> ctx \<Rightarrow> ctx" where
  "upd_item i f c =
     (case objs c i of
        None \<Rightarrow> c
      | Some it \<Rightarrow> c\<lparr>objs := (objs c)(i \<mapsto> f it)\<rparr>)"

text \<open>\<^verbatim>\<open>base.Remove()\<close>: the item leaves the list it is in, if any.\<close>

definition base_Remove :: "item_id \<Rightarrow> ctx \<Rightarrow> ctx" where
  "base_Remove i c = c\<lparr>ListItems := removeAll i (ListItems c)\<rparr>"

text \<open>
  The body of each delegate. \<^verbatim>\<open>Colors[state]\<close> throws for a key that is not in the
  dictionary, before the lambda has changed anything.
\<close>

fun Invoke :: "action \<Rightarrow> ctx \<Rightarrow> exn + ctx" where
  "Invoke (DecayToNormal i) c =
     Inr (upd_item i (\<lambda>it. it\<lparr>BackColor := normalColor it, state := Normal\<rparr>) c)"
| "Invoke (BaseRemove i) c = Inr (base_Remove i c)"
| "Invoke (RemoveHighlight i) c =
     (case Colors Removed of
        None \<Rightarrow> Inl KeyNotFoundException
      | Some col \<Rightarrow>
          Inr (EnqueuePost (BaseRemove i) (upd_item i (\<lambda>it. it\<lparr>BackColor := col\<rparr>) c)))"
| "Invoke (TemporaryState i st) c =
     (case Colors st of
        None \<Rightarrow> Inl KeyNotFoundException
      | Some col \<Rightarrow>
          Inr (EnqueuePost (DecayToNormal i)
                 (upd_item i (\<lambda>it. it\<lparr>BackColor := col, state := st\<rparr>) c)))"
| "Invoke (Method es ps) c = Inr (fold EnqueuePost ps (fold Enqueue es c))"

lemma queue_fold_Enqueue: "queue (fold Enqueue es c) = queue c @ es"
  by (induction es arbitrary: c) (simp_all add: Enqueue_def MonitorEnter_def MonitorExit_def)

lemma queue_fold_EnqueuePost: "queue (fold EnqueuePost ps c) = queue c"
  by (induction ps arbitrary: c) (simp_all add: EnqueuePost_def MonitorEnter_def MonitorExit_def)

lemma postQueue_fold_Enqueue: "postQueue (fold Enqueue es c) = postQueue c"
  by (induction es arbitrary: c) (simp_all add: Enqueue_def MonitorEnter_def MonitorExit_def)

lemma postQueue_fold_EnqueuePost: "postQueue (fold EnqueuePost ps c) = postQueue c"
  by (induction ps arbitrary: c) (simp_all add: EnqueuePost_def MonitorEnter_def MonitorExit_def)

lemma queue_upd_item: "queue (upd_item i f c) = queue c"
  by (simp add: upd_item_def split: option.splits)

lemma postQueue_upd_item: "postQueue (upd_item i f c) = postQueue c"
  by (simp add: upd_item_def split: option.splits)

text \<open>What an invoked delegate adds to the immediate queue.\<close>

fun enqueues :: "action \<Rightarrow> action list" where
  "enqueues (Method es ps) = es"
| "enqueues _ = []"

lemma Invoke_queue: "Invoke m c = Inr c' \<Longrightarrow> queue c' = queue c @ enqueues m"
  by (cases m)
     (auto simp: queue_fold_Enqueue queue_fold_EnqueuePost queue_upd_item base_Remove_def
        EnqueuePost_def MonitorEnter_def MonitorExit_def split: option.splits)

lemma Invoke_postQueue: "Invoke m c = Inr c' \<Longrightarrow> postQueue c' = postQueue c"
  by (cases m)
     (auto simp: postQueue_fold_Enqueue postQueue_fold_EnqueuePost postQueue_upd_item
        base_Remove_def EnqueuePost_def MonitorEnter_def MonitorExit_def split: option.splits)

lemma size_enqueues: "size_list size (enqueues m) \<le> size m"
  by (cases m) simp_all

text \<open>
  \<^verbatim>\<open>while (_queue.Count > 0) _queue.Dequeue().Invoke();\<close> An invoked delegate may call
  \<^verbatim>\<open>Enqueue\<close> itself (the monitor is re-entrant), and the loop then runs what it added
  too. An exception leaves the loop.
\<close>

function drain_queue :: "ctx \<Rightarrow> exn + ctx" where
  "drain_queue c =
     (case queue c of
        [] \<Rightarrow> Inr c
      | m # rest \<Rightarrow>
          (case Invoke m (c\<lparr>queue := rest, invoked := invoked c @ [(m, held c)]\<rparr>) of
             Inl e \<Rightarrow> Inl e
           | Inr c' \<Rightarrow> drain_queue c'))"
  by pat_completeness auto
termination
proof (relation "measure (\<lambda>c. size_list size (queue c))")
  show "wf (measure (\<lambda>c. size_list size (queue c)))" by simp
next
  fix c :: ctx and m rest c'
  assume q: "queue c = m # rest"
    and inv: "Invoke m (c\<lparr>queue := rest, invoked := invoked c @ [(m, held c)]\<rparr>) = Inr c'"
  have "queue c' = rest @ enqueues m"
    using Invoke_queue [OF inv] by simp
  then have "size_list size (queue c') = size_list size rest + size_list size (enqueues m)"
    by simp
  also have "\<dots> < size_list size (m # rest)"
    using size_enqueues [of m] by simp
  finally show "(c', c) \<in> measure (\<lambda>c. size_list size (queue c))"
    using q by simp
qed

text \<open>\<^verbatim>\<open>while (_postQueue.Count > 0) _postQueue.Dequeue().Invoke();\<close>\<close>

function drain_postQueue :: "ctx \<Rightarrow> exn + ctx" where
  "drain_postQueue c =
     (case postQueue c of
        [] \<Rightarrow> Inr c
      | m # rest \<Rightarrow>
          (case Invoke m (c\<lparr>postQueue := rest, invoked := invoked c @ [(m, held c)]\<rparr>) of
             Inl e \<Rightarrow> Inl e
           | Inr c' \<Rightarrow> drain_postQueue c'))"
  by pat_completeness auto
termination
proof (relation "measure (\<lambda>c. length (postQueue c))")
  show "wf (measure (\<lambda>c. length (postQueue c)))" by simp
next
  fix c :: ctx and m rest c'
  assume q: "postQueue c = m # rest"
    and inv: "Invoke m (c\<lparr>postQueue := rest, invoked := invoked c @ [(m, held c)]\<rparr>) = Inr c'"
  have "postQueue c' = rest"
    using Invoke_postQueue [OF inv] by simp
  then show "(c', c) \<in> measure (\<lambda>c. length (postQueue c))"
    using q by simp
qed

text \<open>
  \<^verbatim>\<open>while (_postQueuePending.Count > 0) _postQueue.Enqueue(_postQueuePending.Dequeue());\<close>
\<close>

function requeue_pending :: "ctx \<Rightarrow> ctx" where
  "requeue_pending c =
     (case postQueuePending c of
        [] \<Rightarrow> c
      | m # rest \<Rightarrow> requeue_pending (c\<lparr>postQueuePending := rest, postQueue := postQueue c @ [m]\<rparr>))"
  by pat_completeness auto
termination
  by (relation "measure (\<lambda>c. length (postQueuePending c))") auto

declare drain_queue.simps [simp del]
declare drain_postQueue.simps [simp del]
declare requeue_pending.simps [simp del]

text \<open>
  The delegate \<^verbatim>\<open>Tick\<close> gives to \<^verbatim>\<open>BeginInvoke\<close>: run the immediate queue inside one
  \<^verbatim>\<open>BeginUpdate\<close>/\<^verbatim>\<open>EndUpdate\<close> bracket, under the monitor of \<^verbatim>\<open>_queue\<close>, then create a
  new \<^verbatim>\<open>System.Threading.Timer\<close> due after \<^verbatim>\<open>HighlightingDuration\<close>. An exception
  leaves the delegate (the \<^verbatim>\<open>lock\<close> statement releases the monitor on the way out).
\<close>

definition immediate_batch :: "ctx \<Rightarrow> exn + ctx" where
  "immediate_batch c =
     (case drain_queue (MonitorEnter QueueLock (BeginUpdate c)) of
        Inl e \<Rightarrow> Inl e
      | Inr c1 \<Rightarrow>
          (let c2 = EndUpdate (MonitorExit QueueLock c1)
           in Inr (c2\<lparr>timers := timers c2 @ [HighlightingDuration c2]\<rparr>)))"

text \<open>
  The delegate the timer callback gives to \<^verbatim>\<open>BeginInvoke\<close>: run the post-queue under
  its monitor, then move the pending items into the post-queue under both monitors.
\<close>

definition delayed_batch :: "ctx \<Rightarrow> exn + ctx" where
  "delayed_batch c =
     (case drain_postQueue (MonitorEnter PostQueueLock (BeginUpdate c)) of
        Inl e \<Rightarrow> Inl e
      | Inr c1 \<Rightarrow>
          Inr (MonitorExit PostQueuePendingLock
                (MonitorExit PostQueueLock
                  (requeue_pending
                    (MonitorEnter PostQueueLock
                      (MonitorEnter PostQueuePendingLock
                        (EndUpdate (MonitorExit PostQueueLock c1))))))))"

text \<open>
  \<^verbatim>\<open>Tick()\<close>: nothing when the list has no handle, else the immediate batch is handed to
  \<^verbatim>\<open>BeginInvoke\<close>.
\<close>

definition Tick :: "ctx \<Rightarrow> ctx" where
  "Tick c =
     (if \<not> IsHandleCreated c then c
      else c\<lparr>invokeList := invokeList c @ [ImmediateBatch]\<rparr>)"

text \<open>
  The callback of the oldest armed timer, when it fires: with a live handle the delayed
  batch is handed to \<^verbatim>\<open>BeginInvoke\<close>; in both cases the timer disposes itself.
\<close>

definition timer_callback :: "ctx \<Rightarrow> ctx" where
  "timer_callback c =
     (case timers c of
        [] \<Rightarrow> c
      | t # ts \<Rightarrow>
          (if IsHandleCreated c then c\<lparr>invokeList := invokeList c @ [DelayedBatch]\<rparr> else c)
            \<lparr>timers := ts\<rparr>)"

fun run_callback :: "callback \<Rightarrow> ctx \<Rightarrow> exn + ctx" where
  "run_callback ImmediateBatch c = immediate_batch c"
| "run_callback DelayedBatch c = delayed_batch c"

text \<open>
  The UI thread runs the oldest delegate given to \<^verbatim>\<open>BeginInvoke\<close>. \<^verbatim>\<open>BeginInvoke\<close> is the
  host's primitive (it posts a message to the control's window): a delegate queued for
  a window that no longer exists is never dispatched.
\<close>

definition deliver :: "ctx \<Rightarrow> exn + ctx" where
  "deliver c =
     (case invokeList c of
        [] \<Rightarrow> Inr c
      | cb # rest \<Rightarrow>
          (if IsHandleCreated c then run_callback cb (c\<lparr>invokeList := rest\<rparr>) else Inr c))"

text \<open>
  The constructor \<^verbatim>\<open>HighlightedListViewItem(context, text, highlight)\<close>; \<open>i\<close> is the
  identity of the new object. \<^verbatim>\<open>Colors[ListViewItemState.New]\<close> is in the dictionary.
\<close>

definition HighlightedListViewItem :: "item_id \<Rightarrow> string \<Rightarrow> bool \<Rightarrow> ctx \<Rightarrow> ctx" where
  "HighlightedListViewItem i text highlight c =
     (if StateHighlighting c \<and> highlight then
        EnqueuePost (DecayToNormal i)
          (c\<lparr>objs := (objs c)(i \<mapsto>
                \<lparr>Text = text, SubItems = (\<lambda>_. []), Param = 0,
                 BackColor = the (Colors New), normalColor = SystemWindow, state = New\<rparr>)\<rparr>)
      else
        c\<lparr>objs := (objs c)(i \<mapsto>
              \<lparr>Text = text, SubItems = (\<lambda>_. []), Param = 0,
               BackColor = SystemWindow, normalColor = SystemWindow, state = Normal\<rparr>)\<rparr>)"

text \<open>\<^verbatim>\<open>HighlightedListViewItem.Remove()\<close>\<close>

definition Remove :: "item_id \<Rightarrow> ctx \<Rightarrow> ctx" where
  "Remove i c =
     (if StateHighlighting c then Enqueue (RemoveHighlight i) c else base_Remove i c)"

text \<open>\<^verbatim>\<open>SetTemporaryState(state)\<close>: it does not read \<^verbatim>\<open>StateHighlighting\<close>.\<close>

definition SetTemporaryState :: "item_id \<Rightarrow> ListViewItemState \<Rightarrow> ctx \<Rightarrow> ctx" where
  "SetTemporaryState i st c = Enqueue (TemporaryState i st) c"

text \<open>The setter of \<^verbatim>\<open>NormalColor\<close>.\<close>

definition set_NormalColor :: "item_id \<Rightarrow> Color \<Rightarrow> ctx \<Rightarrow> ctx" where
  "set_NormalColor i v c =
     upd_item i
       (\<lambda>it. if state it = Normal then it\<lparr>normalColor := v, BackColor := v\<rparr>
             else it\<lparr>normalColor := v\<rparr>) c"

text \<open>A context right after construction, for a list whose handle exists.\<close>

definition new_context :: ctx where
  "new_context =
     \<lparr>IsHandleCreated = True, StateHighlighting = True, HighlightingDuration = 1000,
      queue = [], postQueue = [], postQueuePending = [], invokeList = [], timers = [],
      held = [], updating = 0, ListItems = [], objs = (\<lambda>_. None), invoked = []\<rparr>"

text \<open>Sequencing of steps that may throw.\<close>

definition andThen :: "exn + ctx \<Rightarrow> (ctx \<Rightarrow> exn + ctx) \<Rightarrow> exn + ctx" where
  "andThen r f = (case r of Inl e \<Rightarrow> Inl e | Inr c \<Rightarrow> f c)"


text \<open>The visual state of an item.\<close>

definition state_of :: "ctx \<Rightarrow> item_id \<Rightarrow> ListViewItemState option" where
  "state_of c i = map_option state (objs c i)"

text \<open>
  Any number of rounds, each a \<^verbatim>\<open>Tick()\<close> followed by the UI thread running the oldest
  queued delegate, with no timer firing in between.
\<close>

fun tick_rounds :: "nat \<Rightarrow> ctx \<Rightarrow> exn + ctx" where
  "tick_rounds 0 c = Inr c"
| "tick_rounds (Suc n) c = andThen (deliver (Tick c)) (tick_rounds n)"

text \<open>What an invoked delegate hands to \<^verbatim>\<open>EnqueuePost\<close>, and whether its body throws.\<close>

fun posts :: "action \<Rightarrow> action list" where
  "posts (RemoveHighlight i) = [BaseRemove i]"
| "posts (TemporaryState i st) = [DecayToNormal i]"
| "posts (Method es ps) = ps"
| "posts _ = []"

fun throws :: "action \<Rightarrow> bool" where
  "throws (TemporaryState i st) = (Colors st = None)"
| "throws _ = False"

section \<open>The main window (mainwnd.c)\<close>

text \<open>
  Process items and service items are reference-counted objects, named by their
  address; the provider threads own their contents. The main window reads the fields
  below, and nothing else of them.
\<close>

record PH_PROCESS_ITEM =
  ProcessId :: nat
  ProcessName :: string

record PH_SERVICE_ITEM =
  Name :: string
  DisplayName :: "string option"
  ProcessIdString :: string

record PH_SERVICE_MODIFIED_DATA =
  Service :: nat

text \<open>A node of the process tree: the item it shows and the text it caches.\<close>

record PH_PROCESS_NODE =
  ProcessItem :: nat
  TextCache :: string

text \<open>
  The window messages of the providers, with their parameters: \<open>lParam\<close> is the item
  (the copy of the modified-data for \<open>WM_PH_SERVICE_MODIFIED\<close>), \<open>wParam\<close> of
  \<open>WM_PH_SERVICE_ADDED\<close> the run id of the service provider.
\<close>

datatype message =
    WM_PH_PROCESS_ADDED nat
  | WM_PH_PROCESS_MODIFIED nat
  | WM_PH_PROCESS_REMOVED nat
  | WM_PH_SERVICE_ADDED "32 word" nat
  | WM_PH_SERVICE_MODIFIED PH_SERVICE_MODIFIED_DATA
  | WM_PH_SERVICE_REMOVED nat
  | WM_PH_SERVICES_UPDATED

text \<open>
  \<open>refs\<close> is the reference count in the header of each object; \<open>messages\<close> the
  messages posted to \<^verbatim>\<open>PhMainWndHandle\<close> and not yet dispatched, oldest first;
  \<open>ServiceProviderRunId\<close> what \<^verbatim>\<open>PhGetProviderRunId(&ServiceProviderRegistration)\<close>
  returns; \<open>ServiceListView\<close> the list behind \<^verbatim>\<open>ServiceListViewHandle\<close>; \<open>next_item\<close>
  the identity the next list item object gets; \<open>ProcessNodes\<close> the process tree.
\<close>

record mainwnd =
  refs :: "nat \<Rightarrow> nat"
  messages :: "message list"
  ServiceProviderRunId :: "32 word"
  service_items :: "nat \<Rightarrow> PH_SERVICE_ITEM"
  process_items :: "nat \<Rightarrow> PH_PROCESS_ITEM"
  ServiceListView :: ctx
  next_item :: item_id
  ProcessNodes :: "PH_PROCESS_NODE list"

subsection \<open>Collaborators that are not in the source file\<close>

text \<open>
  The source file calls the object manager, the list view helpers and the process tree
  of the repository, none of which it contains. Each is modelled from what the spec
  says of it: sections 4.1 (handles), 4.3 (the displayed collection: insert, locate by
  identity, update, remove; an update or a removal of an item that is not found is a
  no-op) and 4.4 (the highlight state machine, which is the highlighting context
  above).
\<close>

text \<open>
  Modelled from the spec: \<^verbatim>\<open>PhReferenceObject\<close> is not under src/. Section 4.1: acquire
  increments the count.
\<close>

definition PhReferenceObject :: "nat \<Rightarrow> mainwnd \<Rightarrow> mainwnd" where
  "PhReferenceObject obj s = s\<lparr>refs := (refs s)(obj := refs s obj + 1)\<rparr>"

text \<open>
  Modelled from the spec: \<^verbatim>\<open>PhDereferenceObject\<close> is not under src/. Section 4.1:
  release decrements the count, the storage being released when it reaches zero; a
  release without a matching acquire is absorbed by a saturating check.
\<close>

definition PhDereferenceObject :: "nat \<Rightarrow> mainwnd \<Rightarrow> mainwnd" where
  "PhDereferenceObject obj s = s\<lparr>refs := (refs s)(obj := refs s obj - 1)\<rparr>"

text \<open>
  \<^verbatim>\<open>PostMessage(PhMainWndHandle, ...)\<close>, the host's ordered channel to the UI thread
  (section 4.2: publish never drops events and preserves arrival order).
\<close>

definition PostMessage :: "message \<Rightarrow> mainwnd \<Rightarrow> mainwnd" where
  "PostMessage m s = s\<lparr>messages := messages s @ [m]\<rparr>"

text \<open>
  Modelled from the spec: \<^verbatim>\<open>PhAddListViewItem\<close> is not under src/. Section 4.3: a new
  Displayed Item is inserted, holding the entity as its back-reference, and handed to
  the highlight state machine, that is, built by the constructor of
  \<^verbatim>\<open>HighlightedListViewItem\<close>. The row goes at the given index, at the end when the
  index is beyond the end, and its index is returned. \<open>i\<close> is the identity of the new
  list item.
\<close>

definition PhAddListViewItem :: "item_id \<Rightarrow> int \<Rightarrow> string \<Rightarrow> nat \<Rightarrow> ctx \<Rightarrow> ctx \<times> int" where
  "PhAddListViewItem i Index text prm c =
     (let c1 = upd_item i (\<lambda>it. it\<lparr>Param := prm\<rparr>) (HighlightedListViewItem i text True c);
          pos = min (nat Index) (length (ListItems c1))
      in (c1\<lparr>ListItems := take pos (ListItems c1) @ [i] @ drop pos (ListItems c1)\<rparr>, int pos))"

text \<open>
  Modelled from the spec: \<^verbatim>\<open>PhFindListViewItemByParam\<close> is not under src/. Section 4.3:
  the Displayed Item is located by its back-reference; the result is the index of the
  first row after \<open>StartIndex\<close> that holds it, or \<open>-1\<close> when there is none.
\<close>

fun find_from :: "(item_id \<Rightarrow> item option) \<Rightarrow> nat \<Rightarrow> item_id list \<Rightarrow> int \<Rightarrow> int" where
  "find_from os prm [] k = - 1"
| "find_from os prm (i # rest) k =
     (if map_option Param (os i) = Some prm then k else find_from os prm rest (k + 1))"

definition PhFindListViewItemByParam :: "int \<Rightarrow> nat \<Rightarrow> ctx \<Rightarrow> int" where
  "PhFindListViewItemByParam StartIndex prm c =
     (let k = max 0 (StartIndex + 1)
      in find_from (objs c) prm (drop (nat k) (ListItems c)) k)"

text \<open>
  Modelled from the spec: \<^verbatim>\<open>PhSetListViewSubItem\<close> is not under src/. Section 4.3: the
  visible field of the located item is updated; no-op if the item is not found.
\<close>

definition PhSetListViewSubItem :: "int \<Rightarrow> nat \<Rightarrow> string \<Rightarrow> ctx \<Rightarrow> ctx" where
  "PhSetListViewSubItem Index SubItemIndex text c =
     (if 0 \<le> Index \<and> Index < int (length (ListItems c))
      then upd_item (ListItems c ! nat Index)
             (\<lambda>it. it\<lparr>SubItems := (SubItems it)(SubItemIndex := text)\<rparr>) c
      else c)"

text \<open>
  Modelled from the spec: \<^verbatim>\<open>PhRemoveListViewItem\<close> is not under src/. Section 4.3: the
  located item is handed to the highlight state machine for removal, that is, to
  \<^verbatim>\<open>HighlightedListViewItem.Remove\<close>; no-op if the item is not found.
\<close>

definition PhRemoveListViewItem :: "int \<Rightarrow> ctx \<Rightarrow> ctx" where
  "PhRemoveListViewItem Index c =
     (if 0 \<le> Index \<and> Index < int (length (ListItems c))
      then Remove (ListItems c ! nat Index) c
      else c)"

text \<open>
  Modelled from the spec: \<^verbatim>\<open>ExtendedListView_SetStateHighlighting\<close> is not under src/.
  Section 4.4: the boolean toggle of the highlight context, \<^verbatim>\<open>StateHighlighting\<close>.
\<close>

definition ExtendedListView_SetStateHighlighting :: "bool \<Rightarrow> ctx \<Rightarrow> ctx" where
  "ExtendedListView_SetStateHighlighting b c = c\<lparr>StateHighlighting := b\<rparr>"

text \<open>
  Modelled from the spec: \<^verbatim>\<open>ExtendedListView_Tick\<close> is not under src/. Sections 4.3 and
  6: the liveness signal of the highlight state machine, \<^verbatim>\<open>HighlightingContext.Tick\<close>.
\<close>

definition ExtendedListView_Tick :: "ctx \<Rightarrow> ctx" where
  "ExtendedListView_Tick c = Tick c"

text \<open>
  Modelled from the spec: \<^verbatim>\<open>PhGetString\<close> is not under src/. Section 3: a display field
  of the entity; the text of the string, empty when there is none.
\<close>

definition PhGetString :: "string option \<Rightarrow> string" where
  "PhGetString str = (case str of None \<Rightarrow> [] | Some b \<Rightarrow> b)"

text \<open>The largest \<^verbatim>\<open>INT\<close>.\<close>

definition MAXINT :: int where
  "MAXINT = 2147483647"

text \<open>
  Modelled from the spec: \<^verbatim>\<open>PhCreateProcessNode\<close> is not under src/. Section 4.3: a new
  Displayed Item is inserted for the entity; it keeps the reference it is given (the
  source marks the parameter \<^verbatim>\<open>__assumeRefs(1)\<close>) and shows the entity's display
  fields.
\<close>

definition PhCreateProcessNode :: "nat \<Rightarrow> mainwnd \<Rightarrow> mainwnd" where
  "PhCreateProcessNode p s =
     s\<lparr>ProcessNodes := ProcessNodes s @
          [\<lparr>ProcessItem = p, TextCache = ProcessName (process_items s p)\<rparr>]\<rparr>"

text \<open>
  Modelled from the spec: \<^verbatim>\<open>PhFindProcessNode\<close> is not under src/. Section 4.3: the
  Displayed Item is located by its identity key, the process id; \<open>None\<close> is the null
  pointer.
\<close>

definition PhFindProcessNode :: "nat \<Rightarrow> mainwnd \<Rightarrow> PH_PROCESS_NODE option" where
  "PhFindProcessNode pid s =
     find (\<lambda>n. ProcessId (process_items s (ProcessItem n)) = pid) (ProcessNodes s)"

text \<open>
  Modelled from the spec: \<^verbatim>\<open>PhUpdateProcessNode\<close> is not under src/. Section 4.3: the
  visible fields are updated from the entity's current snapshot; no-op if the item is
  not found.
\<close>

definition PhUpdateProcessNode :: "PH_PROCESS_NODE option \<Rightarrow> mainwnd \<Rightarrow> mainwnd" where
  "PhUpdateProcessNode node s =
     (case node of
        None \<Rightarrow> s
      | Some n \<Rightarrow>
          s\<lparr>ProcessNodes :=
               map (\<lambda>n'. if ProcessItem n' = ProcessItem n
                          then n'\<lparr>TextCache := ProcessName (process_items s (ProcessItem n'))\<rparr>
                          else n')
                 (ProcessNodes s)\<rparr>)"

text \<open>
  Modelled from the spec: \<^verbatim>\<open>PhRemoveProcessNode\<close> is not under src/. Section 4.3 and 7:
  the located item is removed; a removal that references an unknown key is a no-op.
\<close>

definition PhRemoveProcessNode :: "PH_PROCESS_NODE option \<Rightarrow> mainwnd \<Rightarrow> mainwnd" where
  "PhRemoveProcessNode node s =
     (case node of
        None \<Rightarrow> s
      | Some n \<Rightarrow>
          s\<lparr>ProcessNodes := filter (\<lambda>n'. ProcessItem n' \<noteq> ProcessItem n) (ProcessNodes s)\<rparr>)"

subsection \<open>The handlers registered with the providers\<close>

text \<open>These run on the provider threads. Only the two \<open>Added\<close> handlers take a reference.\<close>

definition ProcessAddedHandler :: "nat \<Rightarrow> mainwnd \<Rightarrow> mainwnd" where
  "ProcessAddedHandler processItem s =
     PostMessage (WM_PH_PROCESS_ADDED processItem) (PhReferenceObject processItem s)"

definition ProcessModifiedHandler :: "nat \<Rightarrow> mainwnd \<Rightarrow> mainwnd" where
  "ProcessModifiedHandler processItem s = PostMessage (WM_PH_PROCESS_MODIFIED processItem) s"

definition ProcessRemovedHandler :: "nat \<Rightarrow> mainwnd \<Rightarrow> mainwnd" where
  "ProcessRemovedHandler processItem s = PostMessage (WM_PH_PROCESS_REMOVED processItem) s"

definition ServiceAddedHandler :: "nat \<Rightarrow> mainwnd \<Rightarrow> mainwnd" where
  "ServiceAddedHandler serviceItem s =
     (let s1 = PhReferenceObject serviceItem s
      in PostMessage (WM_PH_SERVICE_ADDED (ServiceProviderRunId s1) serviceItem) s1)"

text \<open>\<^verbatim>\<open>PhAllocateCopy\<close>: the message carries a copy of the modified-data.\<close>

definition ServiceModifiedHandler :: "PH_SERVICE_MODIFIED_DATA \<Rightarrow> mainwnd \<Rightarrow> mainwnd" where
  "ServiceModifiedHandler serviceModifiedData s =
     PostMessage (WM_PH_SERVICE_MODIFIED serviceModifiedData) s"

definition ServiceRemovedHandler :: "nat \<Rightarrow> mainwnd \<Rightarrow> mainwnd" where
  "ServiceRemovedHandler serviceItem s = PostMessage (WM_PH_SERVICE_REMOVED serviceItem) s"

definition ServicesUpdatedHandler :: "mainwnd \<Rightarrow> mainwnd" where
  "ServicesUpdatedHandler s = PostMessage WM_PH_SERVICES_UPDATED s"

subsection \<open>The consumers, on the UI thread\<close>

definition PhMainWndOnProcessAdded :: "nat \<Rightarrow> mainwnd \<Rightarrow> mainwnd" where
  "PhMainWndOnProcessAdded p s = PhCreateProcessNode p s"

definition PhMainWndOnProcessModified :: "nat \<Rightarrow> mainwnd \<Rightarrow> mainwnd" where
  "PhMainWndOnProcessModified p s =
     PhUpdateProcessNode (PhFindProcessNode (ProcessId (process_items s p)) s) s"

definition PhMainWndOnProcessRemoved :: "nat \<Rightarrow> mainwnd \<Rightarrow> mainwnd" where
  "PhMainWndOnProcessRemoved p s =
     PhDereferenceObject p
       (PhRemoveProcessNode (PhFindProcessNode (ProcessId (process_items s p)) s) s)"

definition PhMainWndOnServiceAdded :: "32 word \<Rightarrow> nat \<Rightarrow> mainwnd \<Rightarrow> mainwnd" where
  "PhMainWndOnServiceAdded RunId p s =
     (let s1 = PhReferenceObject p s;
          lv1 = (if RunId = 1
                 then ExtendedListView_SetStateHighlighting False (ServiceListView s1)
                 else ServiceListView s1);
          (lv2, lvItemIndex) =
             PhAddListViewItem (next_item s1) MAXINT (Name (service_items s1 p)) p lv1;
          lv3 = (if RunId = 1 then ExtendedListView_SetStateHighlighting True lv2 else lv2);
          lv4 = PhSetListViewSubItem lvItemIndex 1
                  (PhGetString (DisplayName (service_items s1 p))) lv3;
          lv5 = PhSetListViewSubItem lvItemIndex 2 (ProcessIdString (service_items s1 p)) lv4
      in s1\<lparr>ServiceListView := lv5, next_item := Suc (next_item s1)\<rparr>)"

definition PhMainWndOnServiceModified :: "PH_SERVICE_MODIFIED_DATA \<Rightarrow> mainwnd \<Rightarrow> mainwnd" where
  "PhMainWndOnServiceModified d s =
     (let lvItemIndex = PhFindListViewItemByParam (- 1) (Service d) (ServiceListView s)
      in s\<lparr>ServiceListView :=
             PhSetListViewSubItem lvItemIndex 2 (ProcessIdString (service_items s (Service d)))
               (ServiceListView s)\<rparr>)"

definition PhMainWndOnServiceRemoved :: "nat \<Rightarrow> mainwnd \<Rightarrow> mainwnd" where
  "PhMainWndOnServiceRemoved p s =
     PhDereferenceObject p
       (s\<lparr>ServiceListView :=
            PhRemoveListViewItem (PhFindListViewItemByParam (- 1) p (ServiceListView s))
              (ServiceListView s)\<rparr>)"

definition PhMainWndOnServicesUpdated :: "mainwnd \<Rightarrow> mainwnd" where
  "PhMainWndOnServicesUpdated s = s\<lparr>ServiceListView := ExtendedListView_Tick (ServiceListView s)\<rparr>"

text \<open>
  The cases of \<^verbatim>\<open>PhMainWndProc\<close> for the provider messages. After
  \<^verbatim>\<open>PhMainWndOnServiceAdded\<close> the reference the handler took is released; the copy of the
  modified-data is freed after \<^verbatim>\<open>PhMainWndOnServiceModified\<close>.
\<close>

fun PhMainWndProc :: "message \<Rightarrow> mainwnd \<Rightarrow> mainwnd" where
  "PhMainWndProc (WM_PH_PROCESS_ADDED p) s = PhMainWndOnProcessAdded p s"
| "PhMainWndProc (WM_PH_PROCESS_MODIFIED p) s = PhMainWndOnProcessModified p s"
| "PhMainWndProc (WM_PH_PROCESS_REMOVED p) s = PhMainWndOnProcessRemoved p s"
| "PhMainWndProc (WM_PH_SERVICE_ADDED runId p) s =
     PhDereferenceObject p (PhMainWndOnServiceAdded runId p s)"
| "PhMainWndProc (WM_PH_SERVICE_MODIFIED d) s = PhMainWndOnServiceModified d s"
| "PhMainWndProc (WM_PH_SERVICE_REMOVED p) s = PhMainWndOnServiceRemoved p s"
| "PhMainWndProc WM_PH_SERVICES_UPDATED s = PhMainWndOnServicesUpdated s"

text \<open>
  \<^verbatim>\<open>PhMainWndOnCreate\<close>, as far as the providers are concerned: the two controls are
  created empty, state highlighting is switched on for the service list, and the seven
  handlers are registered.
\<close>

definition PhMainWndOnCreate :: "mainwnd \<Rightarrow> mainwnd" where
  "PhMainWndOnCreate s =
     s\<lparr>ServiceListView := ExtendedListView_SetStateHighlighting True new_context,
       ProcessNodes := []\<rparr>"

subsection \<open>Providers and the message loop\<close>

text \<open>
  The events the providers raise, each invoking the handler registered for it, and the
  message loop of the UI thread, which dispatches the oldest posted message. A schedule
  is any interleaving of the two.
\<close>

datatype event =
    PhProcessAddedEvent nat
  | PhProcessModifiedEvent nat
  | PhProcessRemovedEvent nat
  | PhServiceAddedEvent nat
  | PhServiceModifiedEvent PH_SERVICE_MODIFIED_DATA
  | PhServiceRemovedEvent nat
  | PhServicesUpdatedEvent

fun PhInvokeCallback :: "event \<Rightarrow> mainwnd \<Rightarrow> mainwnd" where
  "PhInvokeCallback (PhProcessAddedEvent p) s = ProcessAddedHandler p s"
| "PhInvokeCallback (PhProcessModifiedEvent p) s = ProcessModifiedHandler p s"
| "PhInvokeCallback (PhProcessRemovedEvent p) s = ProcessRemovedHandler p s"
| "PhInvokeCallback (PhServiceAddedEvent p) s = ServiceAddedHandler p s"
| "PhInvokeCallback (PhServiceModifiedEvent d) s = ServiceModifiedHandler d s"
| "PhInvokeCallback (PhServiceRemovedEvent p) s = ServiceRemovedHandler p s"
| "PhInvokeCallback PhServicesUpdatedEvent s = ServicesUpdatedHandler s"

definition DispatchMessage :: "mainwnd \<Rightarrow> mainwnd" where
  "DispatchMessage s =
     (case messages s of
        [] \<Rightarrow> s
      | m # rest \<Rightarrow> PhMainWndProc m (s\<lparr>messages := rest\<rparr>))"

datatype step = Raise event | Dispatch

fun do_step :: "step \<Rightarrow> mainwnd \<Rightarrow> mainwnd" where
  "do_step (Raise e) s = PhInvokeCallback e s"
| "do_step Dispatch s = DispatchMessage s"

definition run :: "step list \<Rightarrow> mainwnd \<Rightarrow> mainwnd" where
  "run sched s = fold do_step sched s"

text \<open>A main window before \<^verbatim>\<open>PhMainWndOnCreate\<close>, every object holding one reference.\<close>

definition initial_mainwnd :: mainwnd where
  "initial_mainwnd =
     \<lparr>refs = (\<lambda>_. 1), messages = [], ServiceProviderRunId = 1,
      service_items = (\<lambda>_. \<lparr>Name = ''svc'', DisplayName = None, ProcessIdString = []\<rparr>),
      process_items = (\<lambda>a. \<lparr>ProcessId = a, ProcessName = ''proc''\<rparr>),
      ServiceListView = new_context, next_item = 0, ProcessNodes = []\<rparr>"

text \<open>The rows of the service list that show a given service item.\<close>

definition rows_of :: "nat \<Rightarrow> mainwnd \<Rightarrow> item_id list" where
  "rows_of p s =
     filter (\<lambda>i. map_option Param (objs (ServiceListView s) i) = Some p)
       (ListItems (ServiceListView s))"

subsection \<open>The life of one object\<close>

text \<open>
  What a message, or an event, says about which object: that it was added, modified or
  removed.
\<close>

datatype kind = KAdded | KModified | KRemoved

fun message_ref :: "message \<Rightarrow> (kind \<times> nat) option" where
  "message_ref (WM_PH_PROCESS_ADDED p) = Some (KAdded, p)"
| "message_ref (WM_PH_PROCESS_MODIFIED p) = Some (KModified, p)"
| "message_ref (WM_PH_PROCESS_REMOVED p) = Some (KRemoved, p)"
| "message_ref (WM_PH_SERVICE_ADDED r p) = Some (KAdded, p)"
| "message_ref (WM_PH_SERVICE_MODIFIED d) = Some (KModified, Service d)"
| "message_ref (WM_PH_SERVICE_REMOVED p) = Some (KRemoved, p)"
| "message_ref WM_PH_SERVICES_UPDATED = None"

fun event_ref :: "event \<Rightarrow> (kind \<times> nat) option" where
  "event_ref (PhProcessAddedEvent p) = Some (KAdded, p)"
| "event_ref (PhProcessModifiedEvent p) = Some (KModified, p)"
| "event_ref (PhProcessRemovedEvent p) = Some (KRemoved, p)"
| "event_ref (PhServiceAddedEvent p) = Some (KAdded, p)"
| "event_ref (PhServiceModifiedEvent d) = Some (KModified, Service d)"
| "event_ref (PhServiceRemovedEvent p) = Some (KRemoved, p)"
| "event_ref PhServicesUpdatedEvent = None"

text \<open>The kinds of the posted messages that reference the object \<open>p\<close>, oldest first.\<close>

fun kinds_for :: "nat \<Rightarrow> message list \<Rightarrow> kind list" where
  "kinds_for p [] = []"
| "kinds_for p (m # ms) =
     (case message_ref m of
        None \<Rightarrow> kinds_for p ms
      | Some (k, q) \<Rightarrow> if q = p then k # kinds_for p ms else kinds_for p ms)"

text \<open>At most one \<open>Added\<close>, in front, and then only \<open>Modified\<close>.\<close>

fun live_shape :: "kind list \<Rightarrow> bool" where
  "live_shape (KAdded # ks) = list_all (\<lambda>k. k = KModified) ks"
| "live_shape ks = list_all (\<lambda>k. k = KModified) ks"

text \<open>
  The order in which a provider raises the events of one object: added once, then
  modified any number of times, then removed once, and nothing after that. \<open>lifecycle\<close>
  follows a schedule and gives the phase the object is in at its end, or \<open>None\<close> when
  the schedule raises the events of the object in another order.
\<close>

datatype phase = Unseen | Live | Gone

fun next_phase :: "nat \<Rightarrow> phase \<Rightarrow> step \<Rightarrow> phase option" where
  "next_phase p ph Dispatch = Some ph"
| "next_phase p ph (Raise e) =
     (case event_ref e of
        None \<Rightarrow> Some ph
      | Some (k, q) \<Rightarrow>
          if q \<noteq> p then Some ph
          else (case (ph, k) of
                  (Unseen, KAdded) \<Rightarrow> Some Live
                | (Live, KModified) \<Rightarrow> Some Live
                | (Live, KRemoved) \<Rightarrow> Some Gone
                | _ \<Rightarrow> None))"

fun lifecycle :: "nat \<Rightarrow> phase \<Rightarrow> step list \<Rightarrow> phase option" where
  "lifecycle p ph [] = Some ph"
| "lifecycle p ph (st # rest) =
     (case next_phase p ph st of
        None \<Rightarrow> None
      | Some ph' \<Rightarrow> lifecycle p ph' rest)"

text \<open>
  What holds of the object \<open>p\<close>, whose count was \<open>r0\<close> before its first event, in each
  phase.
\<close>

definition lifecycle_inv :: "nat \<Rightarrow> nat \<Rightarrow> phase \<Rightarrow> mainwnd \<Rightarrow> bool" where
  "lifecycle_inv p r0 ph s =
     (case ph of
        Unseen \<Rightarrow> refs s p = r0 \<and> kinds_for p (messages s) = []
      | Live \<Rightarrow> refs s p = r0 + 1 \<and> live_shape (kinds_for p (messages s))
      | Gone \<Rightarrow>
          (refs s p = r0 \<and> kinds_for p (messages s) = []) \<or>
          (refs s p = r0 + 1 \<and>
           (\<exists>ks. kinds_for p (messages s) = ks @ [KRemoved] \<and> live_shape ks)))"

section \<open>Properties of the highlighting context\<close>

subsection \<open>Auxiliary facts\<close>

lemma Enqueue_eq: "Enqueue m c = c\<lparr>queue := queue c @ [m]\<rparr>"
  by (simp add: Enqueue_def MonitorEnter_def MonitorExit_def)

lemma EnqueuePost_eq: "EnqueuePost m c = c\<lparr>postQueuePending := postQueuePending c @ [m]\<rparr>"
  by (simp add: EnqueuePost_def MonitorEnter_def MonitorExit_def)

lemma fold_Enqueue_eq: "fold Enqueue es c = c\<lparr>queue := queue c @ es\<rparr>"
  by (induction es arbitrary: c) (simp_all add: Enqueue_eq)

lemma fold_EnqueuePost_eq:
  "fold EnqueuePost ps c = c\<lparr>postQueuePending := postQueuePending c @ ps\<rparr>"
  by (induction ps arbitrary: c) (simp_all add: EnqueuePost_eq)

lemma Invoke_frame:
  "Invoke m c = Inr c' \<Longrightarrow>
     IsHandleCreated c' = IsHandleCreated c \<and> StateHighlighting c' = StateHighlighting c \<and>
     HighlightingDuration c' = HighlightingDuration c \<and> invokeList c' = invokeList c \<and>
     timers c' = timers c \<and> held c' = held c \<and> updating c' = updating c \<and>
     invoked c' = invoked c"
  by (cases m)
     (auto simp: fold_Enqueue_eq fold_EnqueuePost_eq EnqueuePost_eq upd_item_def base_Remove_def
        split: option.splits)

lemma drain_queue_frame:
  "drain_queue c = Inr c' \<Longrightarrow>
     IsHandleCreated c' = IsHandleCreated c \<and> StateHighlighting c' = StateHighlighting c \<and>
     HighlightingDuration c' = HighlightingDuration c \<and> invokeList c' = invokeList c \<and>
     timers c' = timers c \<and> held c' = held c \<and> updating c' = updating c \<and>
     queue c' = [] \<and>
     (\<exists>ms. invoked c' = invoked c @ map (\<lambda>m. (m, held c)) ms)"
proof (induction c rule: drain_queue.induct)
  case (1 c)
  show ?case
  proof (cases "queue c")
    case Nil
    with "1.prems" show ?thesis by (simp add: drain_queue.simps)
  next
    case (Cons m rest)
    let ?c0 = "c\<lparr>queue := rest, invoked := invoked c @ [(m, held c)]\<rparr>"
    from "1.prems" Cons obtain c1
      where inv: "Invoke m ?c0 = Inr c1" and dr: "drain_queue c1 = Inr c'"
      by (auto simp: drain_queue.simps [of c] split: sum.splits)
    note fr = Invoke_frame [OF inv]
    note ih = "1.IH" [OF Cons inv dr]
    from ih obtain ms where ms: "invoked c' = invoked c1 @ map (\<lambda>m. (m, held c1)) ms"
      by blast
    have "invoked c' = invoked c @ map (\<lambda>m. (m, held c)) (m # ms)"
      using ms fr by simp
    then have "\<exists>ms. invoked c' = invoked c @ map (\<lambda>m. (m, held c)) ms" by blast
    then show ?thesis using ih fr by simp
  qed
qed

lemma immediate_batch_frame:
  assumes "immediate_batch c = Inr c'"
  shows "IsHandleCreated c' = IsHandleCreated c \<and> StateHighlighting c' = StateHighlighting c \<and>
     HighlightingDuration c' = HighlightingDuration c \<and> invokeList c' = invokeList c \<and>
     timers c' = timers c @ [HighlightingDuration c] \<and> held c' = held c \<and>
     updating c' = updating c \<and> queue c' = [] \<and>
     (\<exists>ms. invoked c' = invoked c @ map (\<lambda>m. (m, QueueLock # held c)) ms)"
proof -
  let ?c0 = "MonitorEnter QueueLock (BeginUpdate c)"
  from assms obtain c1 where dr: "drain_queue ?c0 = Inr c1"
    and c': "c' = (EndUpdate (MonitorExit QueueLock c1))
               \<lparr>timers := timers (EndUpdate (MonitorExit QueueLock c1)) @
                   [HighlightingDuration (EndUpdate (MonitorExit QueueLock c1))]\<rparr>"
    by (auto simp: immediate_batch_def Let_def split: sum.splits)
  note fr = drain_queue_frame [OF dr]
  show ?thesis
    using fr by (simp add: c' MonitorEnter_def MonitorExit_def BeginUpdate_def EndUpdate_def)
qed

lemma deliver_Tick:
  assumes "IsHandleCreated c" and "invokeList c = []"
  shows "deliver (Tick c) = immediate_batch c"
proof -
  have "c\<lparr>invokeList := []\<rparr> = c\<lparr>invokeList := invokeList c\<rparr>"
    using assms(2) by simp
  then have eq: "c\<lparr>invokeList := []\<rparr> = c" by simp
  have "deliver (Tick c) = immediate_batch (c\<lparr>invokeList := []\<rparr>)"
    using assms by (simp add: deliver_def Tick_def)
  then show ?thesis
    by (simp only: eq)
qed

lemma Invoke_total: "\<not> throws m \<Longrightarrow> \<exists>c'. Invoke m c = Inr c'"
  by (cases m) (auto simp: Colors_def split: option.splits ListViewItemState.splits)

lemma Invoke_pending:
  "Invoke m c = Inr c' \<Longrightarrow> postQueuePending c' = postQueuePending c @ posts m"
  by (cases m)
     (auto simp: fold_Enqueue_eq fold_EnqueuePost_eq EnqueuePost_eq upd_item_def base_Remove_def
        split: option.splits)

lemma drain_postQueue_frame:
  "drain_postQueue c = Inr c' \<Longrightarrow>
     IsHandleCreated c' = IsHandleCreated c \<and> StateHighlighting c' = StateHighlighting c \<and>
     HighlightingDuration c' = HighlightingDuration c \<and> invokeList c' = invokeList c \<and>
     timers c' = timers c \<and> held c' = held c \<and> updating c' = updating c \<and>
     postQueue c' = [] \<and>
     queue c' = queue c @ concat (map enqueues (postQueue c)) \<and>
     postQueuePending c' = postQueuePending c @ concat (map posts (postQueue c)) \<and>
     invoked c' = invoked c @ map (\<lambda>m. (m, held c)) (postQueue c)"
proof (induction c rule: drain_postQueue.induct)
  case (1 c)
  show ?case
  proof (cases "postQueue c")
    case Nil
    with "1.prems" show ?thesis by (simp add: drain_postQueue.simps)
  next
    case (Cons m rest)
    let ?c0 = "c\<lparr>postQueue := rest, invoked := invoked c @ [(m, held c)]\<rparr>"
    from "1.prems" Cons obtain c1
      where inv: "Invoke m ?c0 = Inr c1" and dr: "drain_postQueue c1 = Inr c'"
      by (auto simp: drain_postQueue.simps [of c] split: sum.splits)
    note fr = Invoke_frame [OF inv] Invoke_postQueue [OF inv] Invoke_queue [OF inv]
      Invoke_pending [OF inv]
    note ih = "1.IH" [OF Cons inv dr]
    show ?thesis using ih fr Cons by simp
  qed
qed

lemma drain_postQueue_total:
  "\<forall>m\<in>set (postQueue c). \<not> throws m \<Longrightarrow> \<exists>c'. drain_postQueue c = Inr c'"
proof (induction c rule: drain_postQueue.induct)
  case (1 c)
  show ?case
  proof (cases "postQueue c")
    case Nil
    then show ?thesis by (simp add: drain_postQueue.simps)
  next
    case (Cons m rest)
    let ?c0 = "c\<lparr>postQueue := rest, invoked := invoked c @ [(m, held c)]\<rparr>"
    from "1.prems" Cons have "\<not> throws m" by simp
    then obtain c1 where inv: "Invoke m ?c0 = Inr c1"
      using Invoke_total by blast
    have "postQueue c1 = rest" using Invoke_postQueue [OF inv] by simp
    then have "\<forall>m\<in>set (postQueue c1). \<not> throws m" using "1.prems" Cons by simp
    from "1.IH" [OF Cons inv this] obtain c' where "drain_postQueue c1 = Inr c'" by blast
    then show ?thesis using Cons inv by (simp add: drain_postQueue.simps [of c])
  qed
qed

lemma requeue_pending_eq:
  "requeue_pending c = c\<lparr>postQueuePending := [], postQueue := postQueue c @ postQueuePending c\<rparr>"
proof (induction c rule: requeue_pending.induct)
  case (1 c)
  show ?case
  proof (cases "postQueuePending c")
    case Nil
    have "c\<lparr>postQueuePending := [], postQueue := postQueue c @ []\<rparr> =
          c\<lparr>postQueuePending := postQueuePending c, postQueue := postQueue c\<rparr>"
      using Nil by simp
    then show ?thesis using Nil by (simp add: requeue_pending.simps [of c])
  next
    case (Cons m rest)
    show ?thesis using "1.IH" [OF Cons] Cons by (simp add: requeue_pending.simps [of c])
  qed
qed

lemma delayed_batch_frame:
  assumes "delayed_batch c = Inr c'"
  shows "IsHandleCreated c' = IsHandleCreated c \<and> StateHighlighting c' = StateHighlighting c \<and>
     HighlightingDuration c' = HighlightingDuration c \<and> invokeList c' = invokeList c \<and>
     timers c' = timers c \<and> held c' = held c \<and> updating c' = updating c \<and>
     queue c' = queue c @ concat (map enqueues (postQueue c)) \<and>
     postQueue c' = postQueuePending c @ concat (map posts (postQueue c)) \<and>
     postQueuePending c' = [] \<and>
     invoked c' = invoked c @ map (\<lambda>m. (m, PostQueueLock # held c)) (postQueue c)"
proof -
  let ?c0 = "MonitorEnter PostQueueLock (BeginUpdate c)"
  from assms obtain c1 where dr: "drain_postQueue ?c0 = Inr c1"
    and c': "c' = MonitorExit PostQueuePendingLock
                (MonitorExit PostQueueLock
                  (requeue_pending
                    (MonitorEnter PostQueueLock
                      (MonitorEnter PostQueuePendingLock
                        (EndUpdate (MonitorExit PostQueueLock c1))))))"
    by (auto simp: delayed_batch_def split: sum.splits)
  note fr = drain_postQueue_frame [OF dr]
  show ?thesis
    using fr
    by (simp add: c' requeue_pending_eq MonitorEnter_def MonitorExit_def BeginUpdate_def EndUpdate_def)
qed

lemma delayed_batch_total:
  assumes "\<forall>m\<in>set (postQueue c). \<not> throws m"
  shows "\<exists>c'. delayed_batch c = Inr c'"
proof -
  have "\<forall>m\<in>set (postQueue (MonitorEnter PostQueueLock (BeginUpdate c))). \<not> throws m"
    using assms by (simp add: MonitorEnter_def BeginUpdate_def)
  from drain_postQueue_total [OF this] show ?thesis
    by (auto simp: delayed_batch_def)
qed







subsection \<open>Timers\<close>

text \<open>
  C5, as the code has it. \<^verbatim>\<open>Tick\<close> itself arms nothing; every immediate batch that
  completes creates one new timer, due after the duration, behind the timers that are
  already armed, none of which it touches; a timer callback disposes the one timer that
  fired. So \<open>n\<close> rounds of \<^verbatim>\<open>Tick\<close> and batch, with no timer firing in between, leave
  \<open>n\<close> more timers in flight than before.
\<close>

theorem tick_rounds_arm_one_timer_each:
  assumes "IsHandleCreated c" and "invokeList c = []" and "tick_rounds n c = Inr c'"
  shows "timers c' = timers c @ replicate n (HighlightingDuration c)"
  using assms
proof (induction n arbitrary: c)
  case 0
  then show ?case by simp
next
  case (Suc n)
  from Suc.prems obtain c1 where b: "immediate_batch c = Inr c1"
    and r: "tick_rounds n c1 = Inr c'"
    by (auto simp: andThen_def deliver_Tick split: sum.splits)
  note fr = immediate_batch_frame [OF b]
  have "timers c' = timers c1 @ replicate n (HighlightingDuration c1)"
    using Suc.IH [OF _ _ r] fr Suc.prems by simp
  then show ?case
    using fr by (simp add: replicate_append_same)
qed

theorem tick_rounds_arm_one_timer_each_witness:
  "IsHandleCreated new_context \<and> invokeList new_context = [] \<and>
   tick_rounds (Suc (Suc 0)) new_context = Inr (new_context\<lparr>timers := [1000, 1000]\<rparr>) \<and>
   timers (new_context\<lparr>timers := [1000, 1000]\<rparr>) =
     timers new_context @ replicate (Suc (Suc 0)) (HighlightingDuration new_context)"
proof -
  have h1: "IsHandleCreated new_context" and h2: "invokeList new_context = []"
    by (simp_all add: new_context_def)
  have h3: "tick_rounds (Suc (Suc 0)) new_context = Inr (new_context\<lparr>timers := [1000, 1000]\<rparr>)"
    by (simp add: andThen_def deliver_def Tick_def immediate_batch_def drain_queue.simps
        new_context_def MonitorEnter_def MonitorExit_def BeginUpdate_def EndUpdate_def)
  from tick_rounds_arm_one_timer_each [OF h1 h2 h3] h1 h2 h3 show ?thesis by blast
qed

text \<open>
  C5, as stated, fails: two \<^verbatim>\<open>Tick\<close>s whose batches run before the first timer fires
  leave two timers in flight.
\<close>

theorem two_ticks_two_timers_in_flight:
  "(case tick_rounds (Suc (Suc 0)) new_context of
      Inl e \<Rightarrow> 0
    | Inr c \<Rightarrow> length (timers c)) = 2"
  by (simp add: andThen_def deliver_def Tick_def immediate_batch_def drain_queue.simps
      new_context_def MonitorEnter_def MonitorExit_def BeginUpdate_def EndUpdate_def)

subsection \<open>Decay of the highlight of a new item\<close>




subsection \<open>Actions requested during a delayed batch\<close>

text \<open>
  C6. \<^verbatim>\<open>EnqueuePost\<close> puts an action at the end of the pending buffer and never
  touches the post-queue, whenever it is called. Take any context whose queued delayed
  actions do not throw. Running the
  post-queue loop leaves the post-queue empty and every action requested by the
  executed ones (\<open>posts\<close>) at the end of the pending buffer. The delayed batch as a
  whole executes exactly the actions that were in the post-queue when it started, in
  order, so none of the requested ones; after it, the post-queue holds what was pending
  followed by the requested actions, all of them and in order, and the pending buffer is
  empty. The next delayed batch executes exactly those.
\<close>

theorem requested_actions_run_in_next_batch:
  assumes "\<forall>m\<in>set (postQueue c @ postQueuePending c @ concat (map posts (postQueue c))).
             \<not> throws m"
  shows "postQueue (EnqueuePost m c) = postQueue c \<and>
     postQueuePending (EnqueuePost m c) = postQueuePending c @ [m] \<and>
     (\<exists>c0. drain_postQueue c = Inr c0 \<and> postQueue c0 = [] \<and>
            postQueuePending c0 = postQueuePending c @ concat (map posts (postQueue c))) \<and>
     (\<exists>c1 c2. delayed_batch c = Inr c1 \<and> delayed_batch c1 = Inr c2 \<and>
        map fst (invoked c1) = map fst (invoked c) @ postQueue c \<and>
        postQueue c1 = postQueuePending c @ concat (map posts (postQueue c)) \<and>
        postQueuePending c1 = [] \<and>
        map fst (invoked c2) =
          map fst (invoked c1) @ postQueuePending c @ concat (map posts (postQueue c)))"
proof -
  from assms have nt: "\<forall>m\<in>set (postQueue c). \<not> throws m" by simp
  from drain_postQueue_total [OF nt] obtain c0 where d0: "drain_postQueue c = Inr c0" by blast
  note f0 = drain_postQueue_frame [OF d0]
  from delayed_batch_total [OF nt] obtain c1 where b1: "delayed_batch c = Inr c1" by blast
  note f1 = delayed_batch_frame [OF b1]
  from assms f1 have "\<forall>m\<in>set (postQueue c1). \<not> throws m" by simp
  from delayed_batch_total [OF this] obtain c2 where b2: "delayed_batch c1 = Inr c2" by blast
  note f2 = delayed_batch_frame [OF b2]
  have e1: "map fst (invoked c1) = map fst (invoked c) @ postQueue c"
    using f1 by (simp add: comp_def)
  have e2: "map fst (invoked c2) = map fst (invoked c1) @ postQueue c1"
    using f2 by (simp add: comp_def)
  have "\<exists>c0. drain_postQueue c = Inr c0 \<and> postQueue c0 = [] \<and>
            postQueuePending c0 = postQueuePending c @ concat (map posts (postQueue c))"
    using d0 f0 by simp
  moreover have "\<exists>c1 c2. delayed_batch c = Inr c1 \<and> delayed_batch c1 = Inr c2 \<and>
        map fst (invoked c1) = map fst (invoked c) @ postQueue c \<and>
        postQueue c1 = postQueuePending c @ concat (map posts (postQueue c)) \<and>
        postQueuePending c1 = [] \<and>
        map fst (invoked c2) =
          map fst (invoked c1) @ postQueuePending c @ concat (map posts (postQueue c))"
    using b1 b2 e1 e2 f1 by simp
  moreover have "postQueue (EnqueuePost m c) = postQueue c"
    and "postQueuePending (EnqueuePost m c) = postQueuePending c @ [m]"
    by (simp_all add: EnqueuePost_eq)
  ultimately show ?thesis by blast
qed

theorem requested_actions_run_in_next_batch_witness:
  "\<exists>c1 c2. delayed_batch (new_context\<lparr>postQueue := [Method [] [BaseRemove 0]],
                                     postQueuePending := [DecayToNormal 1]\<rparr>) = Inr c1 \<and>
      delayed_batch c1 = Inr c2 \<and>
      map fst (invoked c1) = [Method [] [BaseRemove 0]] \<and>
      postQueue c1 = [DecayToNormal 1, BaseRemove 0] \<and> postQueuePending c1 = [] \<and>
      map fst (invoked c2) = map fst (invoked c1) @ [DecayToNormal 1, BaseRemove 0]"
proof -
  let ?w = "new_context\<lparr>postQueue := [Method [] [BaseRemove 0]],
                         postQueuePending := [DecayToNormal 1]\<rparr>"
  have h: "\<forall>m\<in>set (postQueue ?w @ postQueuePending ?w @ concat (map posts (postQueue ?w))).
             \<not> throws m"
    by simp
  have i: "invoked ?w = []" by (simp add: new_context_def)
  note t = requested_actions_run_in_next_batch [OF h, where m = "BaseRemove 0"]
  from t have "\<exists>c1 c2. delayed_batch ?w = Inr c1 \<and> delayed_batch c1 = Inr c2 \<and>
        map fst (invoked c1) = map fst (invoked ?w) @ postQueue ?w \<and>
        postQueue c1 = postQueuePending ?w @ concat (map posts (postQueue ?w)) \<and>
        postQueuePending c1 = [] \<and>
        map fst (invoked c2) =
          map fst (invoked c1) @ postQueuePending ?w @ concat (map posts (postQueue ?w))"
    by (elim conjE)
  then show ?thesis using i by simp
qed

subsection \<open>A list without a handle\<close>

text \<open>
  C8. When the list has no handle, \<^verbatim>\<open>Tick\<close> returns without scheduling the immediate
  batch; the callback of a timer that fires schedules no delayed batch and only disposes
  its timer; and a delegate that was scheduled while the handle existed is not run. In
  all three cases no queue is touched, no action is invoked and nothing is thrown.
\<close>

theorem batch_discarded_without_handle:
  assumes "\<not> IsHandleCreated c"
  shows "Tick c = c \<and> timer_callback c = c\<lparr>timers := tl (timers c)\<rparr> \<and> deliver c = Inr c"
proof -
  have "timer_callback c = c\<lparr>timers := tl (timers c)\<rparr>"
  proof (cases "timers c")
    case Nil
    then have "c\<lparr>timers := tl (timers c)\<rparr> = c" by (intro ctx.equality) simp_all
    then show ?thesis using Nil by (simp add: timer_callback_def)
  next
    case (Cons t ts)
    then show ?thesis using assms by (simp add: timer_callback_def)
  qed
  then show ?thesis using assms by (simp add: Tick_def deliver_def split: list.splits)
qed

theorem batch_discarded_without_handle_witness:
  "\<not> IsHandleCreated (new_context\<lparr>IsHandleCreated := False, queue := [RemoveHighlight 0],
        postQueue := [DecayToNormal 1], invokeList := [ImmediateBatch], timers := [1000]\<rparr>) \<and>
   Tick (new_context\<lparr>IsHandleCreated := False, queue := [RemoveHighlight 0],
        postQueue := [DecayToNormal 1], invokeList := [ImmediateBatch], timers := [1000]\<rparr>) =
     new_context\<lparr>IsHandleCreated := False, queue := [RemoveHighlight 0],
        postQueue := [DecayToNormal 1], invokeList := [ImmediateBatch], timers := [1000]\<rparr> \<and>
   invoked (timer_callback (new_context\<lparr>IsHandleCreated := False, queue := [RemoveHighlight 0],
        postQueue := [DecayToNormal 1], invokeList := [ImmediateBatch], timers := [1000]\<rparr>)) = [] \<and>
   postQueue (timer_callback (new_context\<lparr>IsHandleCreated := False, queue := [RemoveHighlight 0],
        postQueue := [DecayToNormal 1], invokeList := [ImmediateBatch], timers := [1000]\<rparr>)) =
     [DecayToNormal 1] \<and>
   invokeList (timer_callback (new_context\<lparr>IsHandleCreated := False, queue := [RemoveHighlight 0],
        postQueue := [DecayToNormal 1], invokeList := [ImmediateBatch], timers := [1000]\<rparr>)) =
     [ImmediateBatch] \<and>
   deliver (new_context\<lparr>IsHandleCreated := False, queue := [RemoveHighlight 0],
        postQueue := [DecayToNormal 1], invokeList := [ImmediateBatch], timers := [1000]\<rparr>) =
     Inr (new_context\<lparr>IsHandleCreated := False, queue := [RemoveHighlight 0],
        postQueue := [DecayToNormal 1], invokeList := [ImmediateBatch], timers := [1000]\<rparr>)"
proof -
  let ?w = "new_context\<lparr>IsHandleCreated := False, queue := [RemoveHighlight 0],
        postQueue := [DecayToNormal 1], invokeList := [ImmediateBatch], timers := [1000]\<rparr>"
  have h: "\<not> IsHandleCreated ?w" by simp
  have f: "invoked ?w = []" by (simp add: new_context_def)
  from batch_discarded_without_handle [OF h] h f show ?thesis by simp
qed

subsection \<open>Monitors\<close>

text \<open>
  C9, as the code has it. \<^verbatim>\<open>Enqueue\<close> and \<^verbatim>\<open>EnqueuePost\<close> own the monitor of their queue
  only while they add the item. The two loops of \<^verbatim>\<open>Tick\<close> sit inside the \<^verbatim>\<open>lock\<close>
  statement: every delegate the immediate batch invokes runs while the monitor of
  \<^verbatim>\<open>_queue\<close> is owned, every delegate the delayed batch invokes runs while the
  monitor of \<^verbatim>\<open>_postQueue\<close> is owned, and the monitor is released only after the loop.
\<close>

theorem queue_monitor_held_during_drain:
  "held (Enqueue m c) = held c \<and> held (EnqueuePost m c) = held c \<and>
   (\<forall>c'. immediate_batch c = Inr c' \<longrightarrow>
      held c' = held c \<and>
      (\<exists>ms. invoked c' = invoked c @ map (\<lambda>m. (m, QueueLock # held c)) ms)) \<and>
   (\<forall>c'. delayed_batch c = Inr c' \<longrightarrow>
      held c' = held c \<and>
      invoked c' = invoked c @ map (\<lambda>m. (m, PostQueueLock # held c)) (postQueue c))"
proof (intro conjI allI impI)
  show "held (Enqueue m c) = held c" by (simp add: Enqueue_eq)
  show "held (EnqueuePost m c) = held c" by (simp add: EnqueuePost_eq)
next
  fix c' assume b: "immediate_batch c = Inr c'"
  from immediate_batch_frame [OF b] show "held c' = held c" by blast
  from immediate_batch_frame [OF b]
  show "\<exists>ms. invoked c' = invoked c @ map (\<lambda>m. (m, QueueLock # held c)) ms" by blast
next
  fix c' assume b: "delayed_batch c = Inr c'"
  from delayed_batch_frame [OF b] show "held c' = held c" by blast
  from delayed_batch_frame [OF b]
  show "invoked c' = invoked c @ map (\<lambda>m. (m, PostQueueLock # held c)) (postQueue c)" by blast
qed

theorem queue_monitor_held_during_drain_witness:
  "(\<exists>c'. immediate_batch (new_context\<lparr>queue := [BaseRemove 0], postQueue := [BaseRemove 1]\<rparr>) = Inr c' \<and>
      held c' = [] \<and> (\<exists>ms. invoked c' = map (\<lambda>m. (m, [QueueLock])) ms)) \<and>
   (\<exists>c'. delayed_batch (new_context\<lparr>queue := [BaseRemove 0], postQueue := [BaseRemove 1]\<rparr>) = Inr c' \<and>
      held c' = [] \<and> invoked c' = [(BaseRemove 1, [PostQueueLock])])"
proof -
  let ?w = "new_context\<lparr>queue := [BaseRemove 0], postQueue := [BaseRemove 1]\<rparr>"
  have f: "held ?w = []" "invoked ?w = []" "postQueue ?w = [BaseRemove 1]"
    by (simp_all add: new_context_def)
  obtain c1 where b1: "immediate_batch ?w = Inr c1"
    by (simp add: immediate_batch_def drain_queue.simps base_Remove_def new_context_def
        MonitorEnter_def BeginUpdate_def Let_def)
  have "\<forall>m\<in>set (postQueue ?w). \<not> throws m" by simp
  from delayed_batch_total [OF this] obtain c2 where b2: "delayed_batch ?w = Inr c2" by blast
  from queue_monitor_held_during_drain [of "BaseRemove 0" ?w] b1 b2 f
  show ?thesis by simp
qed

text \<open>
  C9, as stated, fails: the delegate that \<^verbatim>\<open>Remove\<close> queued is invoked by the immediate
  batch while the monitor of \<^verbatim>\<open>_queue\<close> is owned.
\<close>

theorem action_invoked_under_queue_monitor:
  "(case deliver (Tick (Remove 0 (HighlightedListViewItem 0 ''svc'' True new_context))) of
      Inl e \<Rightarrow> []
    | Inr c \<Rightarrow> invoked c) = [(RemoveHighlight 0, [QueueLock])]"
  by (simp add: deliver_def Tick_def immediate_batch_def drain_queue.simps new_context_def
      MonitorEnter_def MonitorExit_def BeginUpdate_def EndUpdate_def HighlightedListViewItem_def
      Remove_def Enqueue_def EnqueuePost_def upd_item_def Colors_def)

subsection \<open>Highlighting switched off\<close>

text \<open>
  C7, for creation and removal. With \<^verbatim>\<open>StateHighlighting\<close> off, the constructor
  gives the item the normal colour and the \<open>Normal\<close> state and queues nothing, and
  \<^verbatim>\<open>Remove\<close> takes the row out of the list at once, changes no item and queues nothing.
\<close>

theorem creation_and_removal_immediate_when_off:
  assumes "\<not> StateHighlighting c"
  shows "state_of (HighlightedListViewItem i text h c) i = Some Normal \<and>
     map_option BackColor (objs (HighlightedListViewItem i text h c) i) = Some SystemWindow \<and>
     queue (HighlightedListViewItem i text h c) = queue c \<and>
     postQueue (HighlightedListViewItem i text h c) = postQueue c \<and>
     postQueuePending (HighlightedListViewItem i text h c) = postQueuePending c \<and>
     ListItems (Remove i c) = removeAll i (ListItems c) \<and>
     i \<notin> set (ListItems (Remove i c)) \<and>
     objs (Remove i c) = objs c \<and>
     queue (Remove i c) = queue c \<and>
     postQueue (Remove i c) = postQueue c \<and>
     postQueuePending (Remove i c) = postQueuePending c"
  using assms by (simp add: HighlightedListViewItem_def Remove_def base_Remove_def state_of_def)

theorem creation_and_removal_immediate_when_off_witness:
  "\<not> StateHighlighting (new_context\<lparr>StateHighlighting := False, ListItems := [0, 1]\<rparr>) \<and>
   state_of (HighlightedListViewItem 2 ''svc'' True
      (new_context\<lparr>StateHighlighting := False, ListItems := [0, 1]\<rparr>)) 2 = Some Normal \<and>
   postQueuePending (HighlightedListViewItem 2 ''svc'' True
      (new_context\<lparr>StateHighlighting := False, ListItems := [0, 1]\<rparr>)) = [] \<and>
   ListItems (Remove 0 (new_context\<lparr>StateHighlighting := False, ListItems := [0, 1]\<rparr>)) = [1] \<and>
   queue (Remove 0 (new_context\<lparr>StateHighlighting := False, ListItems := [0, 1]\<rparr>)) = []"
proof -
  let ?w = "new_context\<lparr>StateHighlighting := False, ListItems := [0, 1]\<rparr>"
  have h: "\<not> StateHighlighting ?w" by simp
  have f: "postQueuePending ?w = []" "queue ?w = []" "ListItems ?w = [0, 1]"
    by (simp_all add: new_context_def)
  from creation_and_removal_immediate_when_off [OF h, of 2 "''svc''" True]
    creation_and_removal_immediate_when_off [OF h, of 0 "''svc''" True] f h
  show ?thesis by simp
qed

text \<open>
  C7, as stated for every transition, fails: \<^verbatim>\<open>SetTemporaryState\<close> does not read
  \<^verbatim>\<open>StateHighlighting\<close>. With highlighting off it still puts its delegate in the
  immediate queue, the next immediate batch puts the item in the \<open>New\<close> state, and the
  return to \<open>Normal\<close> waits in the pending buffer.
\<close>

theorem temporary_state_queued_when_off:
  "\<not> StateHighlighting
       (HighlightedListViewItem 0 ''svc'' True (new_context\<lparr>StateHighlighting := False\<rparr>)) \<and>
   queue (SetTemporaryState 0 New
       (HighlightedListViewItem 0 ''svc'' True (new_context\<lparr>StateHighlighting := False\<rparr>))) =
     [TemporaryState 0 New] \<and>
   (case deliver (Tick (SetTemporaryState 0 New
       (HighlightedListViewItem 0 ''svc'' True (new_context\<lparr>StateHighlighting := False\<rparr>)))) of
      Inl e \<Rightarrow> (None, [])
    | Inr c \<Rightarrow> (state_of c 0, postQueuePending c)) = (Some New, [DecayToNormal 0])"
  by (simp add: deliver_def Tick_def immediate_batch_def drain_queue.simps new_context_def
      MonitorEnter_def MonitorExit_def BeginUpdate_def EndUpdate_def HighlightedListViewItem_def
      SetTemporaryState_def Enqueue_def EnqueuePost_def upd_item_def Colors_def state_of_def)

section \<open>Properties of the main window\<close>

subsection \<open>Auxiliary facts\<close>

lemma kinds_for_append: "kinds_for p (xs @ ys) = kinds_for p xs @ kinds_for p ys"
  by (induction xs) (auto split: option.splits)

lemma live_shape_snoc: "live_shape ks \<Longrightarrow> live_shape (ks @ [KModified])"
  by (cases ks rule: live_shape.cases) simp_all

lemma live_shape_tl: "live_shape (k # ks) \<Longrightarrow> k \<noteq> KRemoved \<and> live_shape ks"
  by (cases k; cases ks rule: live_shape.cases) (auto)

lemma refs_PhMainWndProc:
  "refs (PhMainWndProc m s) p =
     (if message_ref m = Some (KRemoved, p) then refs s p - 1 else refs s p)"
  by (cases m)
     (auto simp: PhMainWndOnProcessAdded_def PhCreateProcessNode_def
        PhMainWndOnProcessModified_def PhUpdateProcessNode_def PhMainWndOnProcessRemoved_def
        PhRemoveProcessNode_def PhDereferenceObject_def PhReferenceObject_def
        PhMainWndOnServiceAdded_def PhMainWndOnServiceModified_def PhMainWndOnServiceRemoved_def
        PhMainWndOnServicesUpdated_def Let_def split: option.splits prod.splits)

lemma messages_PhMainWndProc: "messages (PhMainWndProc m s) = messages s"
  by (cases m)
     (auto simp: PhMainWndOnProcessAdded_def PhCreateProcessNode_def
        PhMainWndOnProcessModified_def PhUpdateProcessNode_def PhMainWndOnProcessRemoved_def
        PhRemoveProcessNode_def PhDereferenceObject_def PhReferenceObject_def
        PhMainWndOnServiceAdded_def PhMainWndOnServiceModified_def PhMainWndOnServiceRemoved_def
        PhMainWndOnServicesUpdated_def Let_def split: option.splits prod.splits)

lemma refs_PhInvokeCallback:
  "refs (PhInvokeCallback e s) p =
     (if event_ref e = Some (KAdded, p) then refs s p + 1 else refs s p)"
  by (cases e)
     (auto simp: ProcessAddedHandler_def ProcessModifiedHandler_def ProcessRemovedHandler_def
        ServiceAddedHandler_def ServiceModifiedHandler_def ServiceRemovedHandler_def
        ServicesUpdatedHandler_def PostMessage_def PhReferenceObject_def Let_def)

lemma kinds_PhInvokeCallback:
  "kinds_for p (messages (PhInvokeCallback e s)) =
     kinds_for p (messages s) @
       (case event_ref e of
          None \<Rightarrow> []
        | Some (k, q) \<Rightarrow> if q = p then [k] else [])"
  by (cases e)
     (auto simp: ProcessAddedHandler_def ProcessModifiedHandler_def ProcessRemovedHandler_def
        ServiceAddedHandler_def ServiceModifiedHandler_def ServiceRemovedHandler_def
        ServicesUpdatedHandler_def PostMessage_def PhReferenceObject_def Let_def
        kinds_for_append)

lemma raise_inv:
  assumes "lifecycle_inv p r0 ph s" and "next_phase p ph (Raise e) = Some ph'"
  shows "lifecycle_inv p r0 ph' (PhInvokeCallback e s)"
proof (cases "event_ref e")
  case None
  with assms show ?thesis
    by (cases ph)
       (simp_all add: lifecycle_inv_def refs_PhInvokeCallback kinds_PhInvokeCallback)
next
  case (Some kq)
  obtain k q where kq: "kq = (k, q)" by (cases kq)
  show ?thesis
  proof (cases "q = p")
    case False
    with assms Some kq show ?thesis
      by (cases ph)
         (simp_all add: lifecycle_inv_def refs_PhInvokeCallback kinds_PhInvokeCallback)
  next
    case True
    with assms Some kq show ?thesis
      by (cases ph; cases k)
         (auto simp: lifecycle_inv_def refs_PhInvokeCallback kinds_PhInvokeCallback
            live_shape_snoc)
  qed
qed

lemma dispatch_inv:
  assumes "lifecycle_inv p r0 ph s"
  shows "lifecycle_inv p r0 ph (DispatchMessage s)"
proof (cases "messages s")
  case Nil
  with assms show ?thesis by (simp add: DispatchMessage_def)
next
  case (Cons m rest)
  let ?s' = "PhMainWndProc m (s\<lparr>messages := rest\<rparr>)"
  have d: "DispatchMessage s = ?s'" using Cons by (simp add: DispatchMessage_def)
  have r: "refs ?s' p = (if message_ref m = Some (KRemoved, p) then refs s p - 1 else refs s p)"
    by (simp add: refs_PhMainWndProc)
  have ms: "messages ?s' = rest" by (simp add: messages_PhMainWndProc)
  show ?thesis
  proof (cases "\<exists>k. message_ref m = Some (k, p)")
    case False
    then have "kinds_for p (messages s) = kinds_for p rest"
      using Cons by (auto split: option.splits)
    moreover have "refs ?s' p = refs s p" using False r by auto
    ultimately show ?thesis using assms ms d
      by (cases ph) (simp_all add: lifecycle_inv_def)
  next
    case True
    then obtain k where k: "message_ref m = Some (k, p)" by blast
    then have ks: "kinds_for p (messages s) = k # kinds_for p rest"
      using Cons by simp
    show ?thesis
    proof (cases ph)
      case Unseen
      with assms ks show ?thesis by (simp add: lifecycle_inv_def)
    next
      case Live
      with assms ks have "refs s p = r0 + 1" and "live_shape (k # kinds_for p rest)"
        by (simp_all add: lifecycle_inv_def)
      with live_shape_tl [of k "kinds_for p rest"] k r ms d Live show ?thesis
        by (simp add: lifecycle_inv_def)
    next
      case Gone
      with assms ks obtain ks' where rf: "refs s p = r0 + 1"
        and e: "k # kinds_for p rest = ks' @ [KRemoved]" and l: "live_shape ks'"
        by (auto simp: lifecycle_inv_def)
      show ?thesis
      proof (cases ks')
        case Nil
        with e have "k = KRemoved" "kinds_for p rest = []" by simp_all
        with k r ms d rf Gone show ?thesis by (simp add: lifecycle_inv_def)
      next
        case (Cons k' ks'')
        with e have "k' = k" and kr: "kinds_for p rest = ks'' @ [KRemoved]" by simp_all
        with l Cons live_shape_tl [of k ks''] have "k \<noteq> KRemoved" "live_shape ks''" by simp_all
        with k r ms d rf Gone kr show ?thesis by (simp add: lifecycle_inv_def)
      qed
    qed
  qed
qed

lemma run_inv:
  "lifecycle_inv p r0 ph s \<Longrightarrow> lifecycle p ph sched = Some ph' \<Longrightarrow>
     lifecycle_inv p r0 ph' (run sched s)"
proof (induction sched arbitrary: ph s)
  case Nil
  then show ?case by (simp add: run_def)
next
  case (Cons st sched)
  from Cons.prems(2) obtain ph1 where n: "next_phase p ph st = Some ph1"
    and l: "lifecycle p ph1 sched = Some ph'"
    by (auto split: option.splits)
  have "lifecycle_inv p r0 ph1 (do_step st s)"
  proof (cases st)
    case (Raise e)
    with raise_inv [OF Cons.prems(1)] n show ?thesis by simp
  next
    case Dispatch
    with dispatch_inv [OF Cons.prems(1)] n show ?thesis by simp
  qed
  from Cons.IH [OF this l] show ?case by (simp add: run_def)
qed

lemma nth_insert_at: "pos \<le> length xs \<Longrightarrow> (take pos xs @ [n] @ drop pos xs) ! pos = n"
  by (simp add: nth_append)

lemma PhAddListViewItem_eq:
  "PhAddListViewItem n Index txt p lv =
     (let pos = min (nat Index) (length (ListItems lv));
          it = \<lparr>Text = txt, SubItems = (\<lambda>_. []), Param = p,
                BackColor = (if StateHighlighting lv then the (Colors New) else SystemWindow),
                normalColor = SystemWindow,
                state = (if StateHighlighting lv then New else Normal)\<rparr>
      in (lv\<lparr>objs := (objs lv)(n \<mapsto> it),
             postQueuePending := postQueuePending lv @
                (if StateHighlighting lv then [DecayToNormal n] else []),
             ListItems := take pos (ListItems lv) @ [n] @ drop pos (ListItems lv)\<rparr>, int pos))"
  by (simp add: PhAddListViewItem_def HighlightedListViewItem_def EnqueuePost_eq upd_item_def
      Let_def)

lemma PhSetListViewSubItem_at:
  assumes "pos < length (ListItems lv)" and "objs lv (ListItems lv ! pos) = Some it"
  shows "PhSetListViewSubItem (int pos) k txt lv =
     lv\<lparr>objs := (objs lv)(ListItems lv ! pos \<mapsto> it\<lparr>SubItems := (SubItems it)(k := txt)\<rparr>)\<rparr>"
  using assms by (simp add: PhSetListViewSubItem_def upd_item_def)

lemma OnServiceAdded_view:
  fixes s r p
  defines "lv \<equiv> ServiceListView s" and "n \<equiv> next_item s"
    and "s' \<equiv> PhMainWndOnServiceAdded r p s"
  defines "pos \<equiv> min (nat MAXINT) (length (ListItems lv))"
  defines "hl \<equiv> r \<noteq> 1 \<and> StateHighlighting lv"
  shows "refs s' = (refs s)(p := refs s p + 1)"
    and "messages s' = messages s"
    and "next_item s' = Suc n"
    and "ListItems (ServiceListView s') = take pos (ListItems lv) @ [n] @ drop pos (ListItems lv)"
    and "i \<noteq> n \<Longrightarrow> objs (ServiceListView s') i = objs lv i"
    and "map_option Param (objs (ServiceListView s') n) = Some p"
    and "state_of (ServiceListView s') n = Some (if hl then New else Normal)"
    and "StateHighlighting (ServiceListView s') = (r = 1 \<or> StateHighlighting lv)"
    and "queue (ServiceListView s') = queue lv"
    and "postQueue (ServiceListView s') = postQueue lv"
    and "postQueuePending (ServiceListView s') =
           postQueuePending lv @ (if hl then [DecayToNormal n] else [])"
proof -
  have pl: "pos \<le> length (ListItems lv)" by (simp add: pos_def)
  let ?lv1 = "if r = 1 then ExtendedListView_SetStateHighlighting False lv else lv"
  have hl1: "StateHighlighting ?lv1 = hl"
    by (simp add: hl_def ExtendedListView_SetStateHighlighting_def)
  have li1: "ListItems ?lv1 = ListItems lv" "objs ?lv1 = objs lv" "queue ?lv1 = queue lv"
    "postQueue ?lv1 = postQueue lv" "postQueuePending ?lv1 = postQueuePending lv"
    by (simp_all add: ExtendedListView_SetStateHighlighting_def)
  show "refs s' = (refs s)(p := refs s p + 1)"
    by (simp add: s'_def PhMainWndOnServiceAdded_def PhReferenceObject_def Let_def
        split: prod.splits)
  show "messages s' = messages s"
    by (simp add: s'_def PhMainWndOnServiceAdded_def PhReferenceObject_def Let_def
        split: prod.splits)
  show "next_item s' = Suc n"
    by (simp add: s'_def n_def PhMainWndOnServiceAdded_def PhReferenceObject_def Let_def
        split: prod.splits)
  obtain lv2 where a: "PhAddListViewItem n MAXINT (Name (service_items s p)) p ?lv1 = (lv2, int pos)"
    and lv2: "ListItems lv2 = take pos (ListItems lv) @ [n] @ drop pos (ListItems lv)"
      "\<And>i. i \<noteq> n \<Longrightarrow> objs lv2 i = objs lv i"
      "map_option Param (objs lv2 n) = Some p"
      "map_option state (objs lv2 n) = Some (if hl then New else Normal)"
      "StateHighlighting lv2 = hl"
      "queue lv2 = queue lv" "postQueue lv2 = postQueue lv"
      "postQueuePending lv2 = postQueuePending lv @ (if hl then [DecayToNormal n] else [])"
    using hl1 li1 by (simp add: PhAddListViewItem_eq Let_def pos_def)
  define lv3 where "lv3 = (if r = 1 then ExtendedListView_SetStateHighlighting True lv2 else lv2)"
  define it4 where "it4 = (\<lambda>it::item. it\<lparr>SubItems := (SubItems it)(1 :=
                PhGetString (DisplayName (service_items s p)))\<rparr>)"
  define it5 where "it5 = (\<lambda>it::item. it\<lparr>SubItems := (SubItems it)(2 :=
                ProcessIdString (service_items s p))\<rparr>)"
  define lv4 where
    "lv4 = PhSetListViewSubItem (int pos) 1 (PhGetString (DisplayName (service_items s p))) lv3"
  define lv5 where
    "lv5 = PhSetListViewSubItem (int pos) 2 (ProcessIdString (service_items s p)) lv4"
  have s': "ServiceListView s' = lv5"
    using a
    by (cases "r = 1")
       (simp_all add: s'_def n_def lv_def PhMainWndOnServiceAdded_def PhReferenceObject_def
          Let_def lv5_def lv4_def lv3_def)
  have at: "ListItems lv2 ! pos = n" using lv2(1) nth_insert_at [OF pl] by simp
  have len: "pos < length (ListItems lv2)" using lv2(1) pl by simp
  obtain it where it: "objs lv2 n = Some it" using lv2(3) by (cases "objs lv2 n") simp_all
  have lv3: "ListItems lv3 = ListItems lv2" "objs lv3 = objs lv2"
    "StateHighlighting lv3 = (r = 1 \<or> StateHighlighting lv2)"
    "queue lv3 = queue lv2" "postQueue lv3 = postQueue lv2"
    "postQueuePending lv3 = postQueuePending lv2"
    by (simp_all add: lv3_def ExtendedListView_SetStateHighlighting_def)
  have lv4: "lv4 = lv3\<lparr>objs := (objs lv3)(n \<mapsto> it4 it)\<rparr>"
    unfolding lv4_def it4_def
    using PhSetListViewSubItem_at [of pos lv3 it] at len it lv3 by simp
  have lv4': "ListItems lv4 ! pos = n" "pos < length (ListItems lv4)"
    "objs lv4 (ListItems lv4 ! pos) = Some (it4 it)"
    using at len lv3 by (simp_all add: lv4)
  have lv5: "lv5 = lv4\<lparr>objs := (objs lv4)(n \<mapsto> it5 (it4 it))\<rparr>"
    unfolding lv5_def it5_def
    using PhSetListViewSubItem_at [OF lv4'(2,3)] lv4'(1) by simp
  have P: "Param (it5 (it4 it)) = Param it" "state (it5 (it4 it)) = state it"
    by (simp_all add: it4_def it5_def)
  show "ListItems (ServiceListView s') = take pos (ListItems lv) @ [n] @ drop pos (ListItems lv)"
    using lv2 by (simp add: s' lv5 lv4 lv3 P)
  show "i \<noteq> n \<Longrightarrow> objs (ServiceListView s') i = objs lv i"
    using lv2 by (simp add: s' lv5 lv4 lv3 P)
  show "map_option Param (objs (ServiceListView s') n) = Some p"
    using lv2 it by (simp add: s' lv5 lv4 lv3 P)
  show "state_of (ServiceListView s') n = Some (if hl then New else Normal)"
    using lv2 it by (simp add: s' lv5 lv4 lv3 P state_of_def)
  show "StateHighlighting (ServiceListView s') = (r = 1 \<or> StateHighlighting lv)"
    using lv2 by (auto simp: s' lv5 lv4 lv3 hl_def)
  show "queue (ServiceListView s') = queue lv"
    using lv2 by (simp add: s' lv5 lv4 lv3 P)
  show "postQueue (ServiceListView s') = postQueue lv"
    using lv2 by (simp add: s' lv5 lv4 lv3 P)
  show "postQueuePending (ServiceListView s') =
           postQueuePending lv @ (if hl then [DecayToNormal n] else [])"
    using lv2 by (simp add: s' lv5 lv4 lv3 P)
qed

lemma filter_insert_fresh:
  assumes "n \<notin> set xs" and "\<And>i. i \<noteq> n \<Longrightarrow> P' i = P i" and "P' n"
  shows "filter P' (take pos xs @ [n] @ drop pos xs) =
         filter P (take pos xs) @ [n] @ filter P (drop pos xs)"
proof -
  have "filter P' ys = filter P ys" if "set ys \<subseteq> set xs" for ys
  proof (rule filter_cong [OF refl])
    fix x assume "x \<in> set ys"
    with that assms(1) have "x \<noteq> n" by auto
    then show "P' x = P x" by (rule assms(2))
  qed
  then have "filter P' (take pos xs) = filter P (take pos xs)"
    and "filter P' (drop pos xs) = filter P (drop pos xs)"
    by (simp_all add: set_take_subset set_drop_subset)
  then show ?thesis using assms(3) by simp
qed






lemmas mainwnd_defs = run_def DispatchMessage_def ProcessAddedHandler_def
  ProcessModifiedHandler_def ProcessRemovedHandler_def ServiceAddedHandler_def
  ServiceModifiedHandler_def ServiceRemovedHandler_def ServicesUpdatedHandler_def
  PostMessage_def PhReferenceObject_def PhDereferenceObject_def
  PhMainWndOnProcessAdded_def PhMainWndOnProcessModified_def PhMainWndOnProcessRemoved_def
  PhMainWndOnServiceAdded_def PhMainWndOnServiceModified_def PhMainWndOnServiceRemoved_def
  PhMainWndOnServicesUpdated_def PhCreateProcessNode_def PhFindProcessNode_def
  PhUpdateProcessNode_def PhRemoveProcessNode_def PhAddListViewItem_def
  PhFindListViewItemByParam_def PhSetListViewSubItem_def PhRemoveListViewItem_def
  ExtendedListView_SetStateHighlighting_def ExtendedListView_Tick_def PhGetString_def
  MAXINT_def PhMainWndOnCreate_def initial_mainwnd_def new_context_def
  HighlightedListViewItem_def Remove_def Enqueue_eq EnqueuePost_eq upd_item_def
  base_Remove_def Tick_def Colors_def rows_of_def Let_def

subsection \<open>Reference counts\<close>

text \<open>
  C1, as the code has it. Only the handlers of the \<open>Added\<close> events take a reference
  before they post; the handlers of the \<open>Modified\<close> and \<open>Removed\<close> events post the
  item with its count unchanged. The reference taken for \<open>Added\<close> is kept for the
  displayed item and released when the \<open>Removed\<close> message is dispatched. So for any
  object whose events are raised in the order added, modified any number of times,
  removed, and for any interleaving of the handlers with the message loop: while a
  message that references the object is waiting, its count is one above what it was
  before the first event; the same holds from \<open>Added\<close> until \<open>Removed\<close> is raised; and
  once nothing is waiting after \<open>Removed\<close> (or before \<open>Added\<close>) the count is back at
  that value, one acquire having met one release.
\<close>

theorem reference_held_from_added_until_removed:
  assumes "kinds_for p (messages s) = []" and "lifecycle p Unseen sched = Some ph"
  shows "refs (ProcessAddedHandler q s) q = refs s q + 1 \<and>
     refs (ServiceAddedHandler q s) q = refs s q + 1 \<and>
     refs (ProcessModifiedHandler q s) = refs s \<and>
     refs (ProcessRemovedHandler q s) = refs s \<and>
     refs (ServiceModifiedHandler d s) = refs s \<and>
     refs (ServiceRemovedHandler q s) = refs s \<and>
     (kinds_for p (messages (run sched s)) \<noteq> [] \<longrightarrow> refs (run sched s) p = refs s p + 1) \<and>
     (ph = Live \<longrightarrow> refs (run sched s) p = refs s p + 1) \<and>
     (ph \<noteq> Live \<and> kinds_for p (messages (run sched s)) = [] \<longrightarrow>
        refs (run sched s) p = refs s p)"
proof -
  have "lifecycle_inv p (refs s p) Unseen s"
    using assms(1) by (simp add: lifecycle_inv_def)
  from run_inv [OF this assms(2)] have inv: "lifecycle_inv p (refs s p) ph (run sched s)" .
  have a: "kinds_for p (messages (run sched s)) \<noteq> [] \<longrightarrow> refs (run sched s) p = refs s p + 1"
    using inv by (cases ph) (auto simp: lifecycle_inv_def)
  have b: "ph = Live \<longrightarrow> refs (run sched s) p = refs s p + 1"
    using inv by (auto simp: lifecycle_inv_def)
  have c: "ph \<noteq> Live \<and> kinds_for p (messages (run sched s)) = [] \<longrightarrow>
        refs (run sched s) p = refs s p"
    using inv by (cases ph) (auto simp: lifecycle_inv_def)
  have h: "refs (ProcessAddedHandler q s) q = refs s q + 1"
    "refs (ServiceAddedHandler q s) q = refs s q + 1"
    "refs (ProcessModifiedHandler q s) = refs s"
    "refs (ProcessRemovedHandler q s) = refs s"
    "refs (ServiceModifiedHandler d s) = refs s"
    "refs (ServiceRemovedHandler q s) = refs s"
    by (simp_all add: ProcessAddedHandler_def ServiceAddedHandler_def ProcessModifiedHandler_def
        ProcessRemovedHandler_def ServiceModifiedHandler_def ServiceRemovedHandler_def
        PostMessage_def PhReferenceObject_def Let_def)
  from a b c h show ?thesis by blast
qed

theorem reference_held_from_added_until_removed_witness:
  "refs (run [Raise (PhProcessAddedEvent 5), Raise (PhProcessModifiedEvent 5), Dispatch,
              Raise (PhProcessRemovedEvent 5)] initial_mainwnd) 5 = 2 \<and>
   kinds_for 5 (messages (run [Raise (PhProcessAddedEvent 5), Raise (PhProcessModifiedEvent 5),
              Dispatch, Raise (PhProcessRemovedEvent 5)] initial_mainwnd)) =
     [KModified, KRemoved] \<and>
   refs (run [Raise (PhProcessAddedEvent 5), Raise (PhProcessModifiedEvent 5), Dispatch,
              Raise (PhProcessRemovedEvent 5), Dispatch, Dispatch] initial_mainwnd) 5 = 1 \<and>
   messages (run [Raise (PhProcessAddedEvent 5), Raise (PhProcessModifiedEvent 5), Dispatch,
              Raise (PhProcessRemovedEvent 5), Dispatch, Dispatch] initial_mainwnd) = []"
proof -
  let ?a = "[Raise (PhProcessAddedEvent 5), Raise (PhProcessModifiedEvent 5), Dispatch,
             Raise (PhProcessRemovedEvent 5)]"
  let ?b = "[Raise (PhProcessAddedEvent 5), Raise (PhProcessModifiedEvent 5), Dispatch,
             Raise (PhProcessRemovedEvent 5), Dispatch, Dispatch]"
  have h1: "kinds_for 5 (messages initial_mainwnd) = []" by (simp add: initial_mainwnd_def)
  have r0: "refs initial_mainwnd 5 = 1" by (simp add: initial_mainwnd_def)
  have la: "lifecycle 5 Unseen ?a = Some Gone" by simp
  have lb: "lifecycle 5 Unseen ?b = Some Gone" by simp
  have ka: "kinds_for 5 (messages (run ?a initial_mainwnd)) = [KModified, KRemoved]"
    by (simp add: mainwnd_defs)
  have mb: "messages (run ?b initial_mainwnd) = []"
    by (simp add: mainwnd_defs)
  from reference_held_from_added_until_removed [OF h1 la, of 5 "\<lparr>Service = 5\<rparr>"] ka r0
  have "refs (run ?a initial_mainwnd) 5 = 2" by simp
  moreover from reference_held_from_added_until_removed [OF h1 lb, of 5 "\<lparr>Service = 5\<rparr>"] mb r0
  have "refs (run ?b initial_mainwnd) 5 = 1" by simp
  ultimately show ?thesis using ka mb by simp
qed

text \<open>
  C1, as stated for every event kind, fails: the handlers of the \<open>Modified\<close> and the
  \<open>Removed\<close> event of a process post the item without incrementing its count.
\<close>

theorem modified_and_removed_posted_without_reference:
  "refs (ProcessModifiedHandler 5 initial_mainwnd) 5 = refs initial_mainwnd 5 \<and>
   messages (ProcessModifiedHandler 5 initial_mainwnd) = [WM_PH_PROCESS_MODIFIED 5] \<and>
   refs (ProcessRemovedHandler 5 initial_mainwnd) 5 = refs initial_mainwnd 5 \<and>
   messages (ProcessRemovedHandler 5 initial_mainwnd) = [WM_PH_PROCESS_REMOVED 5]"
  by (simp add: ProcessModifiedHandler_def ProcessRemovedHandler_def PostMessage_def
      initial_mainwnd_def)

subsection \<open>Added events\<close>

text \<open>
  C3, as the code has it. \<^verbatim>\<open>PhMainWndOnServiceAdded\<close> looks nothing up: whether or not
  the service item already has rows, it takes one more reference and inserts one more
  row for it (a new list item, whose identity is not yet in the list).
\<close>

theorem service_added_inserts_without_lookup:
  assumes "next_item s \<notin> set (ListItems (ServiceListView s))"
  shows "length (rows_of p (PhMainWndOnServiceAdded r p s)) = Suc (length (rows_of p s)) \<and>
     set (rows_of p (PhMainWndOnServiceAdded r p s)) = insert (next_item s) (set (rows_of p s)) \<and>
     length (ListItems (ServiceListView (PhMainWndOnServiceAdded r p s))) =
       Suc (length (ListItems (ServiceListView s))) \<and>
     refs (PhMainWndOnServiceAdded r p s) p = refs s p + 1"
proof -
  let ?s' = "PhMainWndOnServiceAdded r p s"
  let ?xs = "ListItems (ServiceListView s)"
  let ?pos = "min (nat MAXINT) (length ?xs)"
  let ?P = "\<lambda>i. map_option Param (objs (ServiceListView s) i) = Some p"
  let ?P' = "\<lambda>i. map_option Param (objs (ServiceListView ?s') i) = Some p"
  note v = OnServiceAdded_view [where s = s and r = r and p = p]
  have li: "ListItems (ServiceListView ?s') = take ?pos ?xs @ [next_item s] @ drop ?pos ?xs"
    by (rule v(4))
  have "filter ?P' (take ?pos ?xs @ [next_item s] @ drop ?pos ?xs) =
        filter ?P (take ?pos ?xs) @ [next_item s] @ filter ?P (drop ?pos ?xs)"
    using assms v(5) v(6) by (intro filter_insert_fresh) simp_all
  then have rows: "rows_of p ?s' =
      filter ?P (take ?pos ?xs) @ [next_item s] @ filter ?P (drop ?pos ?xs)"
    by (simp add: rows_of_def li)
  have old: "rows_of p s = filter ?P (take ?pos ?xs) @ filter ?P (drop ?pos ?xs)"
    by (simp add: rows_of_def flip: filter_append)
  have "length (rows_of p ?s') = Suc (length (rows_of p s))"
    by (simp add: rows old)
  moreover have "set (rows_of p ?s') = insert (next_item s) (set (rows_of p s))"
    by (simp add: rows old)
  moreover have "length (ListItems (ServiceListView ?s')) = Suc (length ?xs)"
    by (simp add: li)
  moreover have "refs ?s' p = refs s p + 1"
    by (simp add: v(1))
  ultimately show ?thesis by blast
qed

theorem service_added_inserts_without_lookup_witness:
  "rows_of 5 (run [Raise (PhServiceAddedEvent 5), Dispatch] (PhMainWndOnCreate initial_mainwnd)) =
     [0] \<and>
   length (rows_of 5 (PhMainWndOnServiceAdded 2 5
     (run [Raise (PhServiceAddedEvent 5), Dispatch] (PhMainWndOnCreate initial_mainwnd)))) = 2 \<and>
   refs (PhMainWndOnServiceAdded 2 5
     (run [Raise (PhServiceAddedEvent 5), Dispatch] (PhMainWndOnCreate initial_mainwnd))) 5 = 3"
proof -
  let ?s = "run [Raise (PhServiceAddedEvent 5), Dispatch] (PhMainWndOnCreate initial_mainwnd)"
  have h: "next_item ?s \<notin> set (ListItems (ServiceListView ?s))"
    by (simp add: mainwnd_defs)
  have r: "rows_of 5 ?s = [0]" "refs ?s 5 = 2"
    by (simp_all add: mainwnd_defs)
  from service_added_inserts_without_lookup [OF h, of 5 2] r show ?thesis by simp
qed

text \<open>
  C3, as stated, fails: a second \<open>Added\<close> for a service item that is displayed inserts
  a second row for it.
\<close>

theorem duplicate_added_inserts_second_row:
  "rows_of 5 (run [Raise (PhServiceAddedEvent 5), Dispatch, Raise (PhServiceAddedEvent 5), Dispatch]
      (PhMainWndOnCreate initial_mainwnd)) = [0, 1]"
  by (simp add: mainwnd_defs)

subsection \<open>Modified events for an item that is not displayed\<close>



subsection \<open>Services found on the first run\<close>



end
